theory Spec2Isabelle
  imports Main "HOL-Library.AList"
begin

section \<open>Data model of \<open>kosmos/models/Execution.py\<close>\<close>

text \<open>
  The enumerations \<open>ExecutionStatus\<close> and \<open>TaskStatus\<close> are imported by the module from
  the package; their members are the ones the module and the specification name.
  \<open>submitted\<close> is the status of a task between its submission and its completion
  (section 4.1 of the specification).
\<close>

datatype ExecutionStatus = ES_no_attempt | ES_running | ES_successful | ES_failed | ES_killed

datatype TaskStatus = TS_no_attempt | TS_submitted | TS_successful | TS_failed

text \<open>Exceptions that the modelled code can raise.\<close>

datatype error =
    ExecutionFailed
  | AssertionError string
  | NetworkXError
  | AttributeError
  | OSError
  | SystemExit string

record TaskFile =
  basename :: string
  path :: "string option"

text \<open>
  A \<open>Task\<close> object. \<open>profile\<close> is the dictionary read by
  \<open>task.profile.get('exit_status', None)\<close>, kept as an association list. The fields
  \<open>status\<close>, \<open>successful\<close> and \<open>output_dir\<close> of a task carry the prefix \<open>t_\<close>, since the
  execution has fields of these names.
\<close>

record Task =
  stage_id :: nat
  cpu_req :: int
  must_succeed :: bool
  NOOP :: bool
  command :: "string option"
  t_output_dir :: "string option"
  log_dir :: "string option"
  output_files :: "TaskFile list"
  t_status :: TaskStatus
  profile :: "(string \<times> int) list"
  t_successful :: bool

text \<open>
  A directed graph as \<open>networkx.DiGraph\<close> is used here: nodes in iteration order, edges
  \<open>(u, v)\<close> meaning that \<open>v\<close> depends on \<open>u\<close>. Nodes are task identities.
\<close>

record graph =
  nodes :: "nat list"
  edges :: "(nat \<times> nat) list"

text \<open>
  Modelled from the spec: the class \<open>JobManager\<close> (kosmos/job/JobManager.py is not among
  the sources). Section 6 of the specification gives its interface: \<open>running_tasks\<close> is the
  snapshot of in-flight tasks; \<open>kill_sent\<close> records the jobs that \<open>terminate\<close> asked the DRM
  to kill.
\<close>

record JobManager =
  running_tasks :: "nat list"
  kill_sent :: "nat list"

text \<open>
  The columns of \<open>Execution\<close> that the modelled code reads or writes (\<open>description\<close> and
  \<open>created_on\<close> are neither), and \<open>session\<close>: whether the object is attached to a session.
\<close>

record Execution =
  ex_id :: "nat option"
  name :: string
  successful :: bool
  output_dir :: string
  started_on :: "nat option"
  finished_on :: "nat option"
  max_cpus :: "int option"
  status :: ExecutionStatus
  info :: "(string \<times> string) list"
  session :: bool

text \<open>
  The state that \<open>Execution.run\<close> and its helpers read and write: the execution object
  \<open>self\<close>, its attribute \<open>self.jobmanager\<close> (\<open>None\<close> until \<open>run\<close> creates one), the
  heap of task objects, the local variable \<open>task_queue\<close>, the value of \<open>func.now()\<close>, and
  the completion reports that the DRM will deliver, one batch for each poll.
\<close>

record state =
  ex :: Execution
  jobmanager :: "JobManager option"
  tasks :: "nat \<Rightarrow> Task"
  task_queue :: graph
  now :: nat
  drm :: "(nat \<times> (string \<times> int) list) list list"

text \<open>What a call leaves: the exception that it raised, if any, and the state.\<close>

type_synonym 'a outcome = "error option \<times> 'a"

section \<open>Graph operations\<close>

definition in_degree :: "graph \<Rightarrow> nat \<Rightarrow> nat" where
  "in_degree g n = length (filter (\<lambda>e. snd e = n) (edges g))"

definition remove_node_graph :: "nat \<Rightarrow> graph \<Rightarrow> graph" where
  "remove_node_graph n g =
     \<lparr>nodes = removeAll n (nodes g),
      edges = filter (\<lambda>e. fst e \<noteq> n \<and> snd e \<noteq> n) (edges g)\<rparr>"

text \<open>\<open>DiGraph.remove_nodes_from\<close> silently skips nodes that are absent.\<close>

definition remove_nodes_from :: "nat list \<Rightarrow> graph \<Rightarrow> graph" where
  "remove_nodes_from ns g = fold remove_node_graph ns g"

text \<open>
  \<open>_copy_graph\<close>: a new graph gets the edges first (which adds their end points as nodes)
  and then the remaining nodes.
\<close>

definition copy_graph :: "graph \<Rightarrow> graph" where
  "copy_graph g =
     \<lparr>nodes = rev (remdups (rev (concat (map (\<lambda>e. [fst e, snd e]) (edges g)) @ nodes g))),
      edges = remdups (edges g)\<rparr>"

text \<open>
  \<open>task_queue.remove_node(task)\<close>, the body of the loop in \<open>run\<close> that consumes
  \<open>_process_finished_tasks\<close>; networkx raises when the node is absent.
\<close>

definition remove_node :: "nat \<Rightarrow> state \<Rightarrow> state outcome" where
  "remove_node t s =
     (if t \<in> set (nodes (task_queue s))
      then (None, s\<lparr>task_queue := remove_node_graph t (task_queue s)\<rparr>)
      else (Some NetworkXError, s))"

section \<open>Task status and the job manager\<close>

text \<open>
  Modelled from the spec: the setter of \<open>Task.status\<close> (kosmos/models/Task.py is not among
  the sources). As for the execution's status (section 9), the setter checks for an actual
  change, writes, and runs the observers; by sections 4.1 and 4.4 a transition to
  \<open>failed\<close> of a task with \<open>must_succeed\<close> raises \<open>ExecutionFailed\<close>, and only a successful
  task has its \<open>successful\<close> flag set.
\<close>

definition set_task_status :: "nat \<Rightarrow> TaskStatus \<Rightarrow> state \<Rightarrow> state outcome" where
  "set_task_status t v s =
     (let task = tasks s t in
      if t_status task = v then (None, s)
      else
        let task1 = task\<lparr>t_status := v\<rparr>;
            task2 = (if v = TS_successful then task1\<lparr>t_successful := True\<rparr> else task1);
            s1 = s\<lparr>tasks := (tasks s)(t := task2)\<rparr>
        in if v = TS_failed \<and> must_succeed task then (Some ExecutionFailed, s1)
           else (None, s1))"

text \<open>
  Modelled from the spec: \<open>JobManager.submit\<close> (section 6: the task is tracked as running
  until \<open>get_finished_tasks\<close> reports it; section 4.1: \<open>no_attempt \<rightarrow> submitted\<close> on submit).
  The call \<open>execution.jobmanager.submit\<close> on an execution without a job manager is an
  attribute error on \<open>None\<close>.
\<close>

definition submit :: "nat \<Rightarrow> state \<Rightarrow> state outcome" where
  "submit t s =
     (case jobmanager s of
        None \<Rightarrow> (Some AttributeError, s)
      | Some jm \<Rightarrow>
          set_task_status t TS_submitted
            (s\<lparr>jobmanager := Some (jm\<lparr>running_tasks := running_tasks jm @ [t]\<rparr>)\<rparr>))"

text \<open>
  Modelled from the spec: \<open>JobManager.get_finished_tasks\<close> (section 6). A poll takes the
  DRM's next batch of completion reports; only jobs in flight can be reported, each once.
  The reported tasks leave \<open>running_tasks\<close> and carry their profile. With
  \<open>at_least_one\<close> the call blocks until a task has finished: an empty batch is waited out,
  and when the DRM has nothing more to report the call never returns (\<open>None\<close>).
  First the tasks that a batch reports.
\<close>

definition reported :: "nat list \<Rightarrow> (nat \<times> (string \<times> int) list) list \<Rightarrow> nat list" where
  "reported running batch = remdups (filter (\<lambda>t. t \<in> set running) (map fst batch))"

text \<open>
  Modelled from the spec: what a poll does with a batch (section 6). The reported tasks
  leave \<open>running_tasks\<close>, and each gets the profile that the DRM reports for it.
\<close>

definition deliver :: "(nat \<times> (string \<times> int) list) list \<Rightarrow> JobManager \<Rightarrow> state \<Rightarrow> state" where
  "deliver batch jm s =
     s\<lparr>jobmanager :=
          Some (jm\<lparr>running_tasks :=
                      filter (\<lambda>t. t \<notin> set (reported (running_tasks jm) batch)) (running_tasks jm)\<rparr>),
       tasks := (\<lambda>t. if t \<in> set (reported (running_tasks jm) batch)
                      then (tasks s t)\<lparr>profile := the (map_of batch t)\<rparr> else tasks s t)\<rparr>"

text \<open>
  Modelled from the spec: the poll itself (section 6), on the batches that the DRM still
  has to deliver. \<open>None\<close>: the call blocks for ever.
\<close>

fun get_finished_tasks ::
  "bool \<Rightarrow> JobManager \<Rightarrow> (nat \<times> (string \<times> int) list) list list \<Rightarrow> state \<Rightarrow> (nat list \<times> state) option"
where
  "get_finished_tasks at_least_one jm [] s =
     (if at_least_one then None else Some ([], s))"
| "get_finished_tasks at_least_one jm (batch # rest) s =
     (if at_least_one \<and> reported (running_tasks jm) batch = []
      then get_finished_tasks at_least_one jm rest s
      else Some (reported (running_tasks jm) batch, (deliver batch jm s)\<lparr>drm := rest\<rparr>))"

text \<open>Modelled from the spec: \<open>JobManager.terminate\<close>, a best-effort kill of all in-flight jobs.\<close>

definition jm_terminate :: "JobManager \<Rightarrow> JobManager" where
  "jm_terminate jm =
     jm\<lparr>kill_sent := kill_sent jm @ filter (\<lambda>t. t \<notin> set (kill_sent jm)) (running_tasks jm)\<rparr>"

section \<open>Admission: \<open>_run_ready_tasks\<close>\<close>

text \<open>\<open>os.path.join\<close> of two components (posixpath).\<close>

definition opj :: "string \<Rightarrow> string \<Rightarrow> string" where
  "opj a b =
     (if b \<noteq> [] \<and> hd b = CHR ''/'' then b
      else if a = [] \<or> last a = CHR ''/'' then a @ b
      else a @ ''/'' @ b)"

text \<open>
  The two loops over \<open>task.output_files\<close> that fill in a missing path. Joining with an
  \<open>output_dir\<close> that is still \<open>None\<close> is an attribute error in \<open>posixpath.join\<close>.
\<close>

definition render_paths :: "nat \<Rightarrow> state \<Rightarrow> state outcome" where
  "render_paths t s =
     (let task = tasks s t in
      if list_all (\<lambda>f. path f \<noteq> None) (output_files task) then (None, s)
      else
        (case t_output_dir task of
           None \<Rightarrow> (Some AttributeError, s)
         | Some d \<Rightarrow>
             (None, s\<lparr>tasks := (tasks s)
                (t := task\<lparr>output_files :=
                     map (\<lambda>f. if path f = None then f\<lparr>path := Some (opj d (basename f))\<rparr> else f)
                       (output_files task)\<rparr>)\<rparr>)))"

definition running :: "state \<Rightarrow> nat list" where
  "running s = (case jobmanager s of None \<Rightarrow> [] | Some jm \<Rightarrow> running_tasks jm)"

definition cores_used :: "state \<Rightarrow> int" where
  "cores_used s = sum_list (map (\<lambda>t. cpu_req (tasks s t)) (running s))"

definition ready_tasks :: "state \<Rightarrow> nat list" where
  "ready_tasks s =
     filter (\<lambda>t. in_degree (task_queue s) t = 0 \<and> t_status (tasks s t) = TS_no_attempt)
       (nodes (task_queue s))"

text \<open>
  The \<open>for\<close> loop of \<open>_run_ready_tasks\<close> over the sorted candidates; \<open>break\<close> ends it.
  \<open>execution.jobmanager.running_tasks\<close> is read for every candidate.
\<close>

fun sweep :: "nat list \<Rightarrow> state \<Rightarrow> state outcome" where
  "sweep [] s = (None, s)"
| "sweep (ready_task # rest) s =
     (case jobmanager s of
        None \<Rightarrow> (Some AttributeError, s)
      | Some jm \<Rightarrow>
          if max_cpus (ex s) \<noteq> None
             \<and> cpu_req (tasks s ready_task) + cores_used s > the (max_cpus (ex s))
          then (None, s)
          else
            (case render_paths ready_task s of
               (Some e, s1) \<Rightarrow> (Some e, s1)
             | (None, s1) \<Rightarrow>
                 (case submit ready_task s1 of
                    (Some e, s2) \<Rightarrow> (Some e, s2)
                  | (None, s2) \<Rightarrow> sweep rest s2)))"

text \<open>\<open>sorted(ready_tasks, key=lambda t: t.cpu_req)\<close>: a stable sort.\<close>

definition sorted_ready_tasks :: "state \<Rightarrow> nat list" where
  "sorted_ready_tasks s = sort_key (\<lambda>t. cpu_req (tasks s t)) (ready_tasks s)"

definition run_ready_tasks :: "state \<Rightarrow> state outcome" where
  "run_ready_tasks s = sweep (sorted_ready_tasks s) s"

section \<open>The generator \<open>_process_finished_tasks\<close>\<close>

text \<open>
  \<open>_process_finished_tasks\<close> contains \<open>yield\<close>, so calling it only creates a generator;
  its body runs when a \<open>for\<close> loop iterates it, and at every \<open>yield\<close> the body of that
  loop runs before the generator goes on. A generator is therefore a computation that
  waits for the body of the consuming loop. An exception raised by either side ends
  the iteration.
\<close>

type_synonym generator = "(nat \<Rightarrow> state \<Rightarrow> state outcome) \<Rightarrow> state \<Rightarrow> state outcome option"

text \<open>One pass of the generator's own \<open>for\<close> loop, for the finished task \<open>t\<close>.\<close>

definition process_task :: "(nat \<Rightarrow> state \<Rightarrow> state outcome) \<Rightarrow> nat \<Rightarrow> state \<Rightarrow> state outcome" where
  "process_task body t s =
     (if map_of (profile (tasks s t)) ''exit_status'' = Some 0 \<or> NOOP (tasks s t) then
        (case set_task_status t TS_successful s of
           (Some e, s1) \<Rightarrow> (Some e, s1)
         | (None, s1) \<Rightarrow> body t s1)
      else
        (case (if \<not> must_succeed (tasks s t) then body t s else (None, s)) of
           (Some e, s1) \<Rightarrow> (Some e, s1)
         | (None, s1) \<Rightarrow> set_task_status t TS_failed s1))"

fun for_finished :: "(nat \<Rightarrow> state \<Rightarrow> state outcome) \<Rightarrow> nat list \<Rightarrow> state \<Rightarrow> state outcome" where
  "for_finished body [] s = (None, s)"
| "for_finished body (t # ts) s =
     (case process_task body t s of
        (Some e, s1) \<Rightarrow> (Some e, s1)
      | (None, s1) \<Rightarrow> for_finished body ts s1)"

definition process_finished_tasks :: "bool \<Rightarrow> generator" where
  "process_finished_tasks at_least_one body s =
     (case jobmanager s of
        None \<Rightarrow> Some (Some AttributeError, s)
      | Some jm \<Rightarrow>
          (case get_finished_tasks at_least_one jm (drm s) s of
             None \<Rightarrow> None
           | Some (ts, s1) \<Rightarrow> Some (for_finished body ts s1)))"

section \<open>Execution status\<close>

text \<open>The observer \<open>_execution_status_changed\<close>; \<open>func.now()\<close> is the argument \<open>t\<close>.\<close>

definition execution_status_changed :: "nat \<Rightarrow> Execution \<Rightarrow> Execution" where
  "execution_status_changed t e =
     (let e1 = (if status e \<in> {ES_successful, ES_failed, ES_killed}
                then e\<lparr>finished_on := Some t\<rparr> else e)
      in if status e1 = ES_successful then e1\<lparr>successful := True\<rparr> else e1)"

text \<open>The property setter \<open>set_status\<close> of \<open>Execution.status\<close>.\<close>

definition set_status :: "ExecutionStatus \<Rightarrow> nat \<Rightarrow> Execution \<Rightarrow> Execution" where
  "set_status v t e =
     (if status e \<noteq> v then execution_status_changed t (e\<lparr>status := v\<rparr>) else e)"

section \<open>\<open>Execution.terminate\<close> and the interrupt handler\<close>

text \<open>
  In \<open>terminate\<close> the generator returned by \<open>_process_finished_tasks\<close> is not iterated:
  the call is an expression statement, so the generator is created and dropped.
\<close>

definition terminate :: "state \<Rightarrow> state" where
  "terminate s =
     (let s1 =
        (case jobmanager s of
           None \<Rightarrow> s
         | Some jm \<Rightarrow>
             (let dropped = process_finished_tasks False
              in s\<lparr>jobmanager := Some (jm_terminate jm)\<rparr>))
      in s1\<lparr>ex := set_status ES_killed (now s1) (ex s1)\<rparr>)"

text \<open>The handler \<open>ctrl_c\<close> that \<open>terminate_on_ctrl_c\<close> installs for SIGINT.\<close>

definition ctrl_c :: "state \<Rightarrow> state outcome" where
  "ctrl_c s =
     (if \<not> successful (ex s)
      then (Some (SystemExit ''Execution terminated with a SIGINT (ctrl+c) event''), terminate s)
      else (None, s))"

section \<open>The scheduler loop of \<open>Execution.run\<close>\<close>

text \<open>
  Frame lemmas: a component \<open>P\<close> of the state that does not depend on the fields an
  operation writes is left as it was. Every pass of the loop that goes on to the next has
  consumed at least one batch of the DRM's reports, and nothing else touches them: this
  is the measure of the loop.
\<close>

lemma set_task_status_frame:
  assumes "\<And>f s. P (tasks_update f s) = P s"
  shows "P (snd (set_task_status t v s)) = P s"
  by (simp add: set_task_status_def Let_def assms)

lemma submit_frame:
  assumes "\<And>f s. P (tasks_update f s) = P s" and "\<And>f s. P (jobmanager_update f s) = P s"
  shows "P (snd (submit t s)) = P s"
  by (simp add: submit_def set_task_status_frame [of P] assms split: option.splits)

lemma render_paths_frame:
  assumes "\<And>f s. P (tasks_update f s) = P s"
  shows "P (snd (render_paths t s)) = P s"
  by (simp add: render_paths_def Let_def assms split: option.splits)

lemma sweep_frame:
  assumes T: "\<And>f s. P (tasks_update f s) = P s" and J: "\<And>f s. P (jobmanager_update f s) = P s"
  shows "P (snd (sweep ts s)) = P s"
proof (induction ts arbitrary: s)
  case Nil
  show ?case by simp
next
  case (Cons t ts)
  show ?case
  proof (cases "jobmanager s")
    case None
    then show ?thesis by simp
  next
    case (Some jm)
    obtain r1 s1 where r: "render_paths t s = (r1, s1)" by (cases "render_paths t s")
    obtain r2 s2 where u: "submit t s1 = (r2, s2)" by (cases "submit t s1")
    have d1: "P s1 = P s" using render_paths_frame [of P t s] T r by simp
    have d2: "P s2 = P s1" using submit_frame [of P t s1] T J u by simp
    show ?thesis using Some r u d1 d2 Cons.IH [of s2]
      by (simp split: option.splits)
  qed
qed

lemma run_ready_tasks_frame:
  assumes "\<And>f s. P (tasks_update f s) = P s" and "\<And>f s. P (jobmanager_update f s) = P s"
  shows "P (snd (run_ready_tasks s)) = P s"
  by (simp add: run_ready_tasks_def sweep_frame [of P] assms)

lemma remove_node_frame:
  assumes "\<And>f s. P (task_queue_update f s) = P s"
  shows "P (snd (remove_node t s)) = P s"
  by (simp add: remove_node_def assms)

lemma process_task_frame:
  assumes T: "\<And>f s. P (tasks_update f s) = P s" and Q: "\<And>f s. P (task_queue_update f s) = P s"
  shows "P (snd (process_task remove_node t s)) = P s"
proof -
  obtain r1 s1 where a: "set_task_status t TS_successful s = (r1, s1)"
    by (cases "set_task_status t TS_successful s")
  obtain r2 s2 where b: "remove_node t s = (r2, s2)" by (cases "remove_node t s")
  have "P s1 = P s" using set_task_status_frame [of P t TS_successful s] T a by simp
  moreover have "P s2 = P s" using remove_node_frame [of P t s] Q b by simp
  moreover have "P (snd (remove_node t s1)) = P s1" using Q by (rule remove_node_frame)
  moreover have "P (snd (set_task_status t TS_failed s2)) = P s2"
    using T by (rule set_task_status_frame)
  moreover have "P (snd (set_task_status t TS_failed s)) = P s"
    using T by (rule set_task_status_frame)
  ultimately show ?thesis using a b
    by (simp add: process_task_def split: option.splits)
qed

lemma for_finished_frame:
  assumes T: "\<And>f s. P (tasks_update f s) = P s" and Q: "\<And>f s. P (task_queue_update f s) = P s"
  shows "P (snd (for_finished remove_node ts s)) = P s"
proof (induction ts arbitrary: s)
  case Nil
  show ?case by simp
next
  case (Cons t ts)
  obtain r1 s1 where a: "process_task remove_node t s = (r1, s1)"
    by (cases "process_task remove_node t s")
  have "P s1 = P s" using process_task_frame [of P t s] T Q a by simp
  then show ?case using a Cons.IH [of s1] by (simp split: option.splits)
qed

lemma get_finished_tasks_frame:
  assumes T: "\<And>f s. P (tasks_update f s) = P s" and J: "\<And>f s. P (jobmanager_update f s) = P s"
    and D: "\<And>f s. P (drm_update f s) = P s"
  shows "get_finished_tasks b jm d s = Some (ts, s') \<Longrightarrow> P s' = P s"
  by (induction d) (auto simp: deliver_def T J D split: if_splits)

lemma process_finished_tasks_frame:
  assumes T: "\<And>f s. P (tasks_update f s) = P s" and J: "\<And>f s. P (jobmanager_update f s) = P s"
    and D: "\<And>f s. P (drm_update f s) = P s" and Q: "\<And>f s. P (task_queue_update f s) = P s"
    and R: "process_finished_tasks b remove_node s = Some (r, s')"
  shows "P s' = P s"
proof (cases "jobmanager s")
  case None
  then show ?thesis using R by (simp add: process_finished_tasks_def)
next
  case (Some jm)
  then obtain ts s1 where g: "get_finished_tasks b jm (drm s) s = Some (ts, s1)"
    and f: "for_finished remove_node ts s1 = (r, s')"
    using R by (auto simp: process_finished_tasks_def split: option.splits)
  have "P s' = P s1" using for_finished_frame [of P ts s1] T Q f by simp
  then show ?thesis using get_finished_tasks_frame [of P, OF T J D g] by simp
qed

lemma get_finished_tasks_drm:
  "get_finished_tasks True jm d s = Some (ts, s') \<Longrightarrow> length (drm s') < length d"
  by (induction d) (auto simp: deliver_def split: if_splits)

lemma process_finished_tasks_drm:
  assumes "process_finished_tasks True remove_node s = Some (None, s')"
  shows "length (drm s') < length (drm s)"
proof (cases "jobmanager s")
  case None
  then show ?thesis using assms by (simp add: process_finished_tasks_def)
next
  case (Some jm)
  then obtain ts s1 where g: "get_finished_tasks True jm (drm s) s = Some (ts, s1)"
    and f: "for_finished remove_node ts s1 = (None, s')"
    using assms by (auto simp: process_finished_tasks_def split: option.splits)
  have "drm s' = drm s1" using for_finished_frame [of drm ts s1] f by simp
  then show ?thesis using get_finished_tasks_drm [OF g] by simp
qed

text \<open>
  The \<open>while\<close> loop of \<open>run\<close>. \<open>None\<close> means that the loop never returns: the poll for
  finished tasks blocks for ever.
\<close>

function run_loop :: "state \<Rightarrow> state outcome option" where
  "run_loop s =
     (if length (nodes (task_queue s)) > 0 then
        (case run_ready_tasks s of
           (Some e, s1) \<Rightarrow> Some (Some e, s1)
         | (None, s1) \<Rightarrow>
             (case process_finished_tasks True remove_node s1 of
                None \<Rightarrow> None
              | Some (Some e, s2) \<Rightarrow> Some (Some e, s2)
              | Some (None, s2) \<Rightarrow> run_loop s2))
      else Some (None, s))"
  by pat_completeness auto
termination
proof (relation "measure (\<lambda>s. length (drm s))")
  show "wf (measure (\<lambda>s. length (drm s)))" by simp
next
  fix s :: state and x s1 x2 r s2
  assume a: "(x, s1) = run_ready_tasks s"
    and b: "process_finished_tasks True remove_node s1 = Some x2"
    and c: "(r, s2) = x2" and d: "r = None"
  have "drm s1 = drm s" using run_ready_tasks_frame [of drm s] a [symmetric] by simp
  moreover have "length (drm s2) < length (drm s1)"
    using process_finished_tasks_drm [of s1 s2] b c d by simp
  ultimately show "(s2, s) \<in> measure (\<lambda>s. length (drm s))" by simp
qed

declare run_loop.simps [simp del]

lemma run_loop_frame:
  assumes T: "\<And>f s. P (tasks_update f s) = P s" and J: "\<And>f s. P (jobmanager_update f s) = P s"
    and D: "\<And>f s. P (drm_update f s) = P s" and Q: "\<And>f s. P (task_queue_update f s) = P s"
  shows "run_loop s = Some (r, s') \<Longrightarrow> P s' = P s"
proof (induction s rule: run_loop.induct)
  case (1 s)
  show ?case
  proof (cases "length (nodes (task_queue s)) > 0")
    case False
    then show ?thesis using "1.prems" by (simp add: run_loop.simps)
  next
    case True
    obtain r1 s1 where a: "run_ready_tasks s = (r1, s1)" by (cases "run_ready_tasks s")
    have p1: "P s1 = P s" using run_ready_tasks_frame [of P s] T J a by simp
    show ?thesis
    proof (cases r1)
      case (Some e)
      then show ?thesis using "1.prems" True a p1 by (simp add: run_loop.simps)
    next
      case None
      then obtain r2 s2 where b: "process_finished_tasks True remove_node s1 = Some (r2, s2)"
        using "1.prems" True a by (auto simp: run_loop.simps split: option.splits)
      have p2: "P s2 = P s1" using process_finished_tasks_frame [of P, OF T J D Q b] .
      show ?thesis
      proof (cases r2)
        case (Some e)
        then show ?thesis using "1.prems" True a None b p1 p2 by (simp add: run_loop.simps)
      next
        case n2: None
        have "run_loop s2 = Some (r, s')"
          using "1.prems" True a None b n2 by (simp add: run_loop.simps)
        then have "P s' = P s2"
          using "1.IH" [OF True a [symmetric] None b refl n2] by simp
        then show ?thesis using p1 p2 by simp
      qed
    qed
  qed
qed

section \<open>\<open>Execution.run\<close>\<close>

text \<open>
  The loop of \<open>run\<close> that sets the directories of the queued tasks. \<open>log_dirs\<close> holds the
  keys of the dictionary of that name; a duplicate fails the assertion.
\<close>

fun set_dirs ::
  "(state \<Rightarrow> nat \<Rightarrow> string) \<Rightarrow> (state \<Rightarrow> nat \<Rightarrow> string) \<Rightarrow> string option list \<Rightarrow> nat list
     \<Rightarrow> state \<Rightarrow> state outcome"
where
  "set_dirs task_output_dir task_log_output_dir log_dirs [] s = (None, s)"
| "set_dirs task_output_dir task_log_output_dir log_dirs (t # ts) s =
     (let s1 = s\<lparr>tasks := (tasks s)(t := (tasks s t)\<lparr>t_output_dir := Some (task_output_dir s t)\<rparr>)\<rparr>;
          d = task_log_output_dir s1 t
      in if Some d \<in> set log_dirs
         then (Some (AssertionError ''Duplicate log_dir detected''), s1)
         else
           (let s2 = s1\<lparr>tasks := (tasks s1)(t := (tasks s1 t)\<lparr>log_dir := Some d\<rparr>)\<rparr>
            in case render_paths t s2 of
                 (Some e, s3) \<Rightarrow> (Some e, s3)
               | (None, s3) \<Rightarrow>
                   set_dirs task_output_dir task_log_output_dir (log_dirs @ [Some d]) ts s3))"

text \<open>The loop that sets the command of every queued task that is not \<open>NOOP\<close>.\<close>

fun set_commands :: "(state \<Rightarrow> nat \<Rightarrow> string) \<Rightarrow> nat list \<Rightarrow> state \<Rightarrow> state" where
  "set_commands generate_command [] s = s"
| "set_commands generate_command (t # ts) s =
     set_commands generate_command ts
       (if \<not> NOOP (tasks s t)
        then s\<lparr>tasks := (tasks s)(t := (tasks s t)\<lparr>command := Some (generate_command s t)\<rparr>)\<rparr>
        else s)"

text \<open>
  The body of the \<open>try\<close> statement of \<open>run\<close>, in three parts. First the assignments up
  to \<open>started_on\<close>: the status (through its setter), the flag, a new job manager.
\<close>

definition run_begin :: "state \<Rightarrow> state" where
  "run_begin s =
     (let s1 = s\<lparr>ex := (set_status ES_running (now s) (ex s))\<lparr>successful := False\<rparr>,
                  jobmanager := Some \<lparr>running_tasks = [], kill_sent = []\<rparr>\<rparr>
      in if started_on (ex s1) = None
         then s1\<lparr>ex := (ex s1)\<lparr>started_on := Some (now s1)\<rparr>\<rparr> else s1)"

text \<open>
  Then the set-up of the queue, the directories and the commands. The rendered task graph
  \<open>task_g\<close> (the result of \<open>taskgraph.render_recipe\<close>, whose task objects are in the heap)
  and the tool's \<open>generate_command\<close> are taken as given. Logging, commits and the
  installation of the interrupt handler leave the state as it is.
\<close>

definition run_setup ::
  "graph \<Rightarrow> (state \<Rightarrow> nat \<Rightarrow> string) \<Rightarrow> (state \<Rightarrow> nat \<Rightarrow> string) \<Rightarrow> (state \<Rightarrow> nat \<Rightarrow> string)
     \<Rightarrow> state \<Rightarrow> state outcome"
where
  "run_setup task_g task_output_dir task_log_output_dir generate_command s =
     (let successful_tasks = filter (\<lambda>t. t_status (tasks s t) = TS_successful) (nodes task_g);
          s1 = s\<lparr>task_queue := remove_nodes_from successful_tasks (copy_graph task_g)\<rparr>
      in case set_dirs task_output_dir task_log_output_dir
                (map (\<lambda>t. log_dir (tasks s1 t)) successful_tasks)
                (nodes (task_queue s1)) s1 of
           (Some e, s2) \<Rightarrow> (Some e, s2)
         | (None, s2) \<Rightarrow> (None, set_commands generate_command (nodes (task_queue s2)) s2))"

text \<open>Last the scheduler loop, unless the run is dry.\<close>

definition run_try ::
  "graph \<Rightarrow> (state \<Rightarrow> nat \<Rightarrow> string) \<Rightarrow> (state \<Rightarrow> nat \<Rightarrow> string) \<Rightarrow> (state \<Rightarrow> nat \<Rightarrow> string)
     \<Rightarrow> bool \<Rightarrow> state \<Rightarrow> state outcome option"
where
  "run_try task_g task_output_dir task_log_output_dir generate_command dry s =
     (if \<not> session (ex s)
      then Some (Some (AssertionError ''Execution must be part of a sqlalchemy session''), s)
      else
        (case run_setup task_g task_output_dir task_log_output_dir generate_command (run_begin s) of
           (Some e, s1) \<Rightarrow> Some (Some e, s1)
         | (None, s1) \<Rightarrow>
             if \<not> dry then
               (case run_loop s1 of
                  None \<Rightarrow> None
                | Some (Some e, s2) \<Rightarrow> Some (Some e, s2)
                | Some (None, s2) \<Rightarrow>
                    Some (None, s2\<lparr>ex := set_status ES_successful (now s2) (ex s2)\<rparr>))
             else Some (None, s1)))"

text \<open>\<open>run\<close>: the handler of \<open>ExecutionFailed\<close> terminates and raises again.\<close>

definition run ::
  "graph \<Rightarrow> (state \<Rightarrow> nat \<Rightarrow> string) \<Rightarrow> (state \<Rightarrow> nat \<Rightarrow> string) \<Rightarrow> (state \<Rightarrow> nat \<Rightarrow> string)
     \<Rightarrow> bool \<Rightarrow> state \<Rightarrow> state outcome option"
where
  "run task_g task_output_dir task_log_output_dir generate_command dry s =
     (case run_try task_g task_output_dir task_log_output_dir generate_command dry s of
        None \<Rightarrow> None
      | Some (Some e, s1) \<Rightarrow>
          if e = ExecutionFailed then Some (Some e, terminate s1) else Some (Some e, s1)
      | Some (None, s1) \<Rightarrow> Some (None, s1))"

section \<open>\<open>Execution.start\<close>\<close>

text \<open>
  What \<open>start\<close> works on: the rows of the database behind the session and the directories
  of the file system. A task row is a task with its primary key; a stage row links a
  stage to its execution.
\<close>

record Stage =
  st_id :: nat
  st_name :: string
  execution_id :: nat

record store =
  executions :: "Execution list"
  stages :: "Stage list"
  db_tasks :: "(nat \<times> Task) list"
  dirs :: "string list"

text \<open>
  Modelled from the spec: the helper \<open>mkdir\<close> of \<open>util/helpers.py\<close>, which is not among the
  sources (section 4.5: the output directory is created). It creates a directory that is
  missing.
\<close>

definition mkdir :: "string \<Rightarrow> string list \<Rightarrow> string list" where
  "mkdir d ds = (if d \<in> set ds then ds else ds @ [d])"

text \<open>\<open>shutil.rmtree\<close> removes a directory with everything below it.\<close>

definition rmtree :: "string \<Rightarrow> string list \<Rightarrow> string list" where
  "rmtree d ds = filter (\<lambda>p. p \<noteq> d \<and> take (length d + 1) p \<noteq> d @ ''/'') ds"

text \<open>
  \<open>session.query(Execution).filter_by(name=name).first()\<close>. Loading an execution runs
  the reconstructor, which calls \<open>__init__\<close> and so \<open>mkdir(self.output_dir)\<close>.
\<close>

definition query_first :: "string \<Rightarrow> store \<Rightarrow> Execution option \<times> store" where
  "query_first nm st =
     (case find (\<lambda>e. name e = nm) (executions st) of
        None \<Rightarrow> (None, st)
      | Some e \<Rightarrow> (Some e, st\<lparr>dirs := mkdir (output_dir e) (dirs st)\<rparr>))"

text \<open>The property \<open>tasksq\<close>: the tasks whose stage is a stage of the execution.\<close>

definition stage_ids :: "Execution \<Rightarrow> store \<Rightarrow> nat list" where
  "stage_ids e st = map st_id (filter (\<lambda>g. Some (execution_id g) = ex_id e) (stages st))"

definition tasksq :: "Execution \<Rightarrow> store \<Rightarrow> (nat \<times> Task) list" where
  "tasksq e st = filter (\<lambda>r. stage_id (snd r) \<in> set (stage_ids e st)) (db_tasks st)"

text \<open>
  \<open>Execution.delete\<close>. \<open>shutil.rmtree\<close> raises when the directory is missing, before
  anything is deleted. Modelled from the spec: deleting the execution cascades to its
  stages and tasks (section 4.5); the relationships are declared outside the sources.
\<close>

definition delete :: "Execution \<Rightarrow> bool \<Rightarrow> store \<Rightarrow> error option \<times> store" where
  "delete e delete_output_dir st =
     (if delete_output_dir \<and> output_dir e \<notin> set (dirs st) then (Some OSError, st)
      else
        (let st1 = (if delete_output_dir then st\<lparr>dirs := rmtree (output_dir e) (dirs st)\<rparr> else st)
         in (None,
             st1\<lparr>executions := filter (\<lambda>x. ex_id x \<noteq> ex_id e) (executions st1),
                 stages := filter (\<lambda>g. Some (execution_id g) \<noteq> ex_id e) (stages st1),
                 db_tasks := filter (\<lambda>r. stage_id (snd r) \<notin> set (stage_ids e st1)) (db_tasks st1)\<rparr>)))"

text \<open>
  \<open>validate_name\<close>: \<open>re.match('^[\w]+$', name)\<close>; the \<open>$\<close> also matches before a
  newline that ends the string.
\<close>

definition word_char :: "char \<Rightarrow> bool" where
  "word_char c =
     (c \<in> set ''abcdefghijklmnopqrstuvwxyzABCDEFGHIJKLMNOPQRSTUVWXYZ0123456789_'')"

definition validate_name :: "string \<Rightarrow> bool" where
  "validate_name nm =
     (let body = (if nm \<noteq> [] \<and> last nm = CHR 0x0A then butlast nm else nm)
      in body \<noteq> [] \<and> list_all word_char body)"

text \<open>The branch of \<open>start\<close> taken when \<open>restart\<close> is true; it yields \<open>old_id\<close>.\<close>

definition start_restart :: "string \<Rightarrow> bool \<Rightarrow> bool \<Rightarrow> store \<Rightarrow> (error + nat option) \<times> store" where
  "start_restart nm prompt_confirm answer st =
     (case query_first nm st of
        (None, st1) \<Rightarrow> (Inr None, st1)
      | (Some e, st1) \<Rightarrow>
          if prompt_confirm \<and> \<not> answer then (Inl (SystemExit ''Quitting''), st1)
          else
            (case delete e True st1 of
               (Some err, st2) \<Rightarrow> (Inl err, st2)
             | (None, st2) \<Rightarrow> (Inr (ex_id e), st2)))"

text \<open>
  The branch that resumes the stored execution \<open>e\<close>: first the deletion of its tasks that
  are not successful, with the entry in \<open>info\<close> and the commit that end \<open>start\<close>.
\<close>

definition delete_failed_tasks :: "Execution \<Rightarrow> string \<Rightarrow> store \<Rightarrow> (error + Execution) \<times> store" where
  "delete_failed_tasks e last_cmd st =
     (let q = filter (\<lambda>r. \<not> t_successful (snd r)) (tasksq e st);
          e1 = e\<lparr>info := AList.update ''last_cmd_executed'' last_cmd (info e)\<rparr>
      in (Inr e1,
          st\<lparr>executions := map (\<lambda>x. if ex_id x = ex_id e then e1 else x) (executions st),
             db_tasks := filter (\<lambda>r. r \<notin> set q) (db_tasks st)\<rparr>))"

definition start_resume ::
  "Execution \<Rightarrow> string option \<Rightarrow> int option \<Rightarrow> string \<Rightarrow> store \<Rightarrow> (error + Execution) \<times> store"
where
  "start_resume e output_dir' max_cpus' last_cmd st =
     (let e1 = e\<lparr>max_cpus := max_cpus'\<rparr>
      in case output_dir' of
           None \<Rightarrow> delete_failed_tasks e1 last_cmd st
         | Some d \<Rightarrow>
             if output_dir e1 = d then delete_failed_tasks e1 last_cmd st
             else (Inl (AssertionError
                     ''cannot change the output_dir of an execution being resumed.''), st))"

text \<open>The branch that starts from scratch. The database gives a new row the next free id.\<close>

definition start_create ::
  "nat option \<Rightarrow> string \<Rightarrow> string \<Rightarrow> int option \<Rightarrow> string \<Rightarrow> store \<Rightarrow> (error + Execution) \<times> store"
where
  "start_create old_id nm d max_cpus' last_cmd st =
     (if d \<in> set (dirs st) then (Inl (AssertionError (d @ '' already exists'')), st)
      else
        (let st1 = st\<lparr>dirs := mkdir d (dirs st)\<rparr>
         in if \<not> validate_name nm then (Inl (AssertionError ''Invalid execution name.''), st1)
            else
              (let e = \<lparr>ex_id = (case old_id of
                                    None \<Rightarrow> Some (Suc (fold max (map (\<lambda>x. the (ex_id x)) (executions st1)) 0))
                                  | Some i \<Rightarrow> Some i),
                        name = nm, successful = False, output_dir = d, started_on = None,
                        finished_on = None, max_cpus = max_cpus', status = ES_no_attempt,
                        info = [(''last_cmd_executed'', last_cmd)], session = True\<rparr>
               in (Inr e, st1\<lparr>executions := executions st1 @ [e]\<rparr>))))"

text \<open>
  \<open>Execution.start\<close>. \<open>answer\<close> is what the user replies to the confirmation prompt and
  \<open>last_cmd\<close> is the value of \<open>get_last_cmd_executed()\<close>.
\<close>

definition start ::
  "store \<Rightarrow> string \<Rightarrow> string option \<Rightarrow> bool \<Rightarrow> bool \<Rightarrow> int option \<Rightarrow> bool \<Rightarrow> string
     \<Rightarrow> (error + Execution) \<times> store"
where
  "start st nm output_dir' restart prompt_confirm max_cpus' answer last_cmd =
     (if output_dir' = None then (Inl (AssertionError ''output_dir cannot be None''), st)
      else
        (case (if restart then start_restart nm prompt_confirm answer st else (Inr None, st)) of
           (Inl err, st1) \<Rightarrow> (Inl err, st1)
         | (Inr old_id, st1) \<Rightarrow>
             (case query_first nm st1 of
                (Some e, st2) \<Rightarrow> start_resume e output_dir' max_cpus' last_cmd st2
              | (None, st2) \<Rightarrow> start_create old_id nm (the output_dir') max_cpus' last_cmd st2)))"

section \<open>Scenarios\<close>

text \<open>Concrete tasks, executions and scheduler states used to run the model.\<close>

definition new_task :: "int \<Rightarrow> bool \<Rightarrow> Task" where
  "new_task c m = \<lparr>stage_id = 0, cpu_req = c, must_succeed = m, NOOP = False, command = None,
     t_output_dir = None, log_dir = None, output_files = [], t_status = TS_no_attempt,
     profile = [], t_successful = False\<rparr>"

definition new_execution :: "int option \<Rightarrow> Execution" where
  "new_execution m = \<lparr>ex_id = Some 1, name = ''wf'', successful = False, output_dir = ''/out'',
     started_on = None, finished_on = None, max_cpus = m, status = ES_no_attempt, info = [],
     session = True\<rparr>"

text \<open>A state as \<open>start\<close> leaves it for \<open>run\<close>, with the rendered tasks in the heap.\<close>

definition started :: "int option \<Rightarrow> (nat \<Rightarrow> Task) \<Rightarrow> (nat \<times> (string \<times> int) list) list list \<Rightarrow> state" where
  "started m ts d = \<lparr>ex = new_execution m, jobmanager = None, tasks = ts,
     task_queue = \<lparr>nodes = [], edges = []\<rparr>, now = 7, drm = d\<rparr>"

text \<open>A state inside the scheduler loop: nothing is in flight yet.\<close>

definition scheduling :: "int option \<Rightarrow> (nat \<Rightarrow> Task) \<Rightarrow> graph \<Rightarrow> (nat \<times> (string \<times> int) list) list list \<Rightarrow> state" where
  "scheduling m ts g d = \<lparr>ex = (new_execution m)\<lparr>status := ES_running\<rparr>,
     jobmanager = Some \<lparr>running_tasks = [], kill_sent = []\<rparr>, tasks = ts,
     task_queue = g, now = 7, drm = d\<rparr>"

text \<open>A state inside the scheduler loop in which task 1 is in flight.\<close>

definition in_flight :: "bool \<Rightarrow> (nat \<times> (string \<times> int) list) list list \<Rightarrow> state" where
  "in_flight m d = \<lparr>ex = (new_execution None)\<lparr>status := ES_running\<rparr>,
     jobmanager = Some \<lparr>running_tasks = [1], kill_sent = []\<rparr>,
     tasks = (\<lambda>t. (new_task 1 m)\<lparr>t_status := TS_submitted\<rparr>),
     task_queue = \<lparr>nodes = [1], edges = []\<rparr>, now = 7, drm = d\<rparr>"

definition exit_with :: "nat \<Rightarrow> int \<Rightarrow> (nat \<times> (string \<times> int) list) list" where
  "exit_with t c = [(t, [(''exit_status'', c)])]"

text \<open>Caller-supplied functions of \<open>run\<close>: the directories and the command of a task.\<close>

definition out_dir :: "state \<Rightarrow> nat \<Rightarrow> string" where
  "out_dir s t = ''/out/stage''"

definition log_dir_of :: "state \<Rightarrow> nat \<Rightarrow> string" where
  "log_dir_of s t = replicate t CHR ''l''"

definition command_of :: "state \<Rightarrow> nat \<Rightarrow> string" where
  "command_of s t = ''true''"

text \<open>
  Tasks 1 and 2 are in flight; the DRM reports exit status 0 for task 1 and exit status 3
  for task 2, which need not succeed.
\<close>

definition two_in_flight :: state where
  "two_in_flight = \<lparr>ex = (new_execution None)\<lparr>status := ES_running\<rparr>,
     jobmanager = Some \<lparr>running_tasks = [1, 2], kill_sent = []\<rparr>,
     tasks = (\<lambda>t. (new_task 1 False)\<lparr>t_status := TS_submitted\<rparr>),
     task_queue = \<lparr>nodes = [1, 2], edges = []\<rparr>, now = 7,
     drm = [exit_with 1 0 @ exit_with 2 3]\<rparr>"

text \<open>
  Tasks 1 and 2 are in flight and the DRM reports both in one batch: exit status 1 for
  task 1, which must succeed, and exit status 0 for task 2.
\<close>

definition failing_batch :: state where
  "failing_batch = \<lparr>ex = (new_execution None)\<lparr>status := ES_running\<rparr>,
     jobmanager = Some \<lparr>running_tasks = [1, 2], kill_sent = []\<rparr>,
     tasks = (\<lambda>t. (new_task 1 (t = 1))\<lparr>t_status := TS_submitted\<rparr>),
     task_queue = \<lparr>nodes = [1, 2], edges = []\<rparr>, now = 7,
     drm = [exit_with 1 1 @ exit_with 2 0]\<rparr>"

text \<open>
  Scenario S2 of the specification after task 1 has completed: tasks 2 and 3 are ready
  with \<open>cpu_req = 2\<close> each, task 4 waits for both, and \<open>max_cpus = 3\<close>.
\<close>

definition diamond :: state where
  "diamond = scheduling (Some 3) ((\<lambda>t. new_task 2 True)(4 := new_task 1 True))
     \<lparr>nodes = [2, 3, 4], edges = [(2, 4), (3, 4)]\<rparr> []"

text \<open>
  A store with the execution \<open>wf\<close> (id 1, output directory \<open>/out\<close>) and three task rows:
  tasks 1 (successful) and 2 (not successful) of its stage 10, and task 3 (not
  successful) of stage 20, which belongs to another execution.
\<close>

definition resumable :: store where
  "resumable =
     \<lparr>executions = [(new_execution None)\<lparr>status := ES_killed, finished_on := Some 5\<rparr>],
      stages = [\<lparr>st_id = 10, st_name = ''align'', execution_id = 1\<rparr>,
                \<lparr>st_id = 20, st_name = ''align'', execution_id = 2\<rparr>],
      db_tasks = [(1, (new_task 1 True)\<lparr>stage_id := 10, t_status := TS_successful,
                                          t_successful := True\<rparr>),
                  (2, (new_task 1 True)\<lparr>stage_id := 10, t_status := TS_failed\<rparr>),
                  (3, (new_task 1 True)\<lparr>stage_id := 20, t_status := TS_failed\<rparr>)],
      dirs = [''/out'']\<rparr>"

section \<open>Observations and properties\<close>

text \<open>What is observed of a call that returns: the exception, the status of the execution and
  its flag, the status of the listed tasks, the remaining queue and the tasks in flight.\<close>

definition observe ::
  "nat list \<Rightarrow> state outcome option
     \<Rightarrow> (error option \<times> ExecutionStatus \<times> bool \<times> TaskStatus list \<times> nat list \<times> nat list) option"
where
  "observe ts r =
     map_option (\<lambda>(e, s). (e, status (ex s), successful (ex s),
        map (\<lambda>t. t_status (tasks s t)) ts, nodes (task_queue s), running s)) r"

text \<open>\<open>remove_node\<close> behind the assertion that the removed task has a terminal status.\<close>

definition asserting_remove_node :: "nat \<Rightarrow> state \<Rightarrow> state outcome" where
  "asserting_remove_node t s =
     (if t_status (tasks s t) = TS_successful \<or> t_status (tasks s t) = TS_failed
      then remove_node t s
      else (Some (AssertionError ''removed before its status is terminal''), s))"

text \<open>
  The status that claim C7 gives a finished task: \<open>successful\<close> if and only if the task is
  \<open>NOOP\<close> or \<open>exit_status\<close> in its profile is 0, and \<open>failed\<close> otherwise.
\<close>

definition final_status :: "Task \<Rightarrow> TaskStatus" where
  "final_status task =
     (if NOOP task \<or> map_of (profile task) ''exit_status'' = Some 0 then TS_successful
      else TS_failed)"

text \<open>
  The states that the scheduler loop passes through from its entry \<open>s0\<close>: the state after
  a sweep and the state after the finished tasks have been processed, whether the step
  ended normally or with an exception.
\<close>

inductive loop_reach :: "state \<Rightarrow> state \<Rightarrow> bool" for s0 :: state where
  entry: "loop_reach s0 s0"
| swept: "loop_reach s0 s \<Longrightarrow> run_ready_tasks s = (r, s') \<Longrightarrow> loop_reach s0 s'"
| drained:
    "loop_reach s0 s \<Longrightarrow> process_finished_tasks True remove_node s = Some (r, s') \<Longrightarrow>
     loop_reach s0 s'"

text \<open>
  The first statement of the body of \<open>run\<close>, \<open>self.status = ExecutionStatus.running\<close>. The
  setter runs \<open>_execution_status_changed\<close>, which commits: when the status has changed,
  the execution is stored as it is after this statement, before the next one resets the
  flag.
\<close>

definition run_assign_running :: "state \<Rightarrow> state" where
  "run_assign_running s = s\<lparr>ex := set_status ES_running (now s) (ex s)\<rparr>"

text \<open>A call of \<open>run\<close> in a process that stops right after that statement.\<close>

definition run_stopped_after_status :: "state \<Rightarrow> state outcome option" where
  "run_stopped_after_status s =
     (if \<not> session (ex s)
      then Some (Some (AssertionError ''Execution must be part of a sqlalchemy session''), s)
      else Some (None, run_assign_running s))"

text \<open>
  The store that a process leaves behind for a later \<open>start\<close>: the row of the execution
  and its output directory. \<open>None\<close> is a process that never ended.
\<close>

definition stored :: "state outcome option \<Rightarrow> store" where
  "stored r =
     (case r of
        None \<Rightarrow> \<lparr>executions = [], stages = [], db_tasks = [], dirs = []\<rparr>
      | Some (e, s) \<Rightarrow>
          \<lparr>executions = [ex s], stages = [], db_tasks = [], dirs = [output_dir (ex s)]\<rparr>)"

definition observe_start ::
  "(error + Execution) \<times> store \<Rightarrow> error + ExecutionStatus \<times> bool \<times> nat option"
where
  "observe_start r =
     (case fst r of Inl e \<Rightarrow> Inl e | Inr e \<Rightarrow> Inr (status e, successful e, finished_on e))"

text \<open>
  The states of an execution over its lifecycle. \<open>start\<close> creates it with the status
  \<open>no_attempt\<close>, the flag unset and no \<open>finished_on\<close>. A call of \<open>run\<close> takes it through the
  state after the assignment of the status, the state after the assignments that follow
  it, the states of the set-up and of the scheduler loop, to the state in which the call
  ends. The interrupt handler can run in any of these states. Every row that the code
  commits is the execution of one of them, and a later \<open>start\<close> from the store that a
  process has left gives the execution to a new process, with a new heap and job manager.
\<close>

inductive lifecycle :: "state \<Rightarrow> bool" where
  created:
    "status (ex s) = ES_no_attempt \<Longrightarrow> \<not> successful (ex s) \<Longrightarrow> finished_on (ex s) = None \<Longrightarrow>
     lifecycle s"
| status_assigned: "lifecycle s \<Longrightarrow> session (ex s) \<Longrightarrow> lifecycle (run_assign_running s)"
| begun: "lifecycle s \<Longrightarrow> session (ex s) \<Longrightarrow> lifecycle (run_begin s)"
| set_up: "lifecycle s \<Longrightarrow> run_setup task_g od ld gc s = (r, s') \<Longrightarrow> lifecycle s'"
| looped: "lifecycle s \<Longrightarrow> loop_reach s s' \<Longrightarrow> lifecycle s'"
| ran: "lifecycle s \<Longrightarrow> run task_g od ld gc dry s = Some (r, s') \<Longrightarrow> lifecycle s'"
| interrupted: "lifecycle s \<Longrightarrow> ctrl_c s = (r, s') \<Longrightarrow> lifecycle s'"
| started_again:
    "lifecycle s \<Longrightarrow>
     fst (start (stored (Some (r, s))) nm d restart prompt_confirm m answer cmd) = Inr e \<Longrightarrow>
     ex s' = e \<Longrightarrow> lifecycle s'"

text \<open>Two calls in a row: the second works on the state that the first has left.\<close>

definition and_then ::
  "state outcome option \<Rightarrow> (state \<Rightarrow> state outcome option) \<Rightarrow> state outcome option"
where
  "and_then r f = (case r of None \<Rightarrow> None | Some (e, s) \<Rightarrow> f s)"

definition observe_times ::
  "state outcome option \<Rightarrow> (ExecutionStatus \<times> bool \<times> nat option \<times> nat option) option"
where
  "observe_times r =
     map_option (\<lambda>(e, s). (status (ex s), successful (ex s), started_on (ex s),
        finished_on (ex s))) r"

section \<open>Dry runs\<close>

text \<open>The set-up of \<open>run\<close> writes directories, paths and commands only.\<close>

lemma render_paths_t_status: "t_status (tasks (snd (render_paths t s)) u) = t_status (tasks s u)"
  by (simp add: render_paths_def Let_def split: option.splits)

lemma set_dirs_frame:
  assumes T: "\<And>f s. P (tasks_update f s) = P s"
  shows "P (snd (set_dirs od ld ds ts s)) = P s"
proof (induction ts arbitrary: s ds)
  case Nil
  show ?case by simp
next
  case (Cons t ts)
  let ?s1 = "s\<lparr>tasks := (tasks s)(t := (tasks s t)\<lparr>t_output_dir := Some (od s t)\<rparr>)\<rparr>"
  let ?s2 = "?s1\<lparr>tasks := (tasks ?s1)(t := (tasks ?s1 t)\<lparr>log_dir := Some (ld ?s1 t)\<rparr>)\<rparr>"
  obtain r3 s3 where a: "render_paths t ?s2 = (r3, s3)" by (cases "render_paths t ?s2")
  have "P s3 = P ?s2" using render_paths_frame [of P t ?s2] T a by simp
  then have "P s3 = P s" by (simp add: T)
  then show ?case using a Cons.IH [where s = s3] T
    by (simp add: Let_def split: option.splits)
qed

lemma set_dirs_t_status:
  "t_status (tasks (snd (set_dirs od ld ds ts s)) u) = t_status (tasks s u)"
proof (induction ts arbitrary: s ds)
  case Nil
  show ?case by simp
next
  case (Cons t ts)
  let ?s1 = "s\<lparr>tasks := (tasks s)(t := (tasks s t)\<lparr>t_output_dir := Some (od s t)\<rparr>)\<rparr>"
  let ?s2 = "?s1\<lparr>tasks := (tasks ?s1)(t := (tasks ?s1 t)\<lparr>log_dir := Some (ld ?s1 t)\<rparr>)\<rparr>"
  obtain r3 s3 where a: "render_paths t ?s2 = (r3, s3)" by (cases "render_paths t ?s2")
  have "t_status (tasks s3 u) = t_status (tasks ?s2 u)"
    using render_paths_t_status [of t ?s2 u] a by simp
  then have eq: "t_status (tasks s3 u) = t_status (tasks s u)" by simp
  have eq1: "t_status (tasks ?s1 u) = t_status (tasks s u)" by simp
  have ih: "t_status (tasks (snd (set_dirs od ld (ds @ [Some (ld ?s1 t)]) ts s3)) u)
      = t_status (tasks s3 u)"
    by (rule Cons.IH)
  have "snd (set_dirs od ld ds (t # ts) s) = ?s1
      \<or> snd (set_dirs od ld ds (t # ts) s) = s3
      \<or> snd (set_dirs od ld ds (t # ts) s) = snd (set_dirs od ld (ds @ [Some (ld ?s1 t)]) ts s3)"
    using a by (simp add: Let_def split: option.splits)
  then show ?case using eq eq1 ih by metis
qed

lemma set_commands_frame:
  assumes T: "\<And>f s. P (tasks_update f s) = P s"
  shows "P (set_commands gc ts s) = P s"
  by (induction ts arbitrary: s) (simp_all add: T)

lemma set_commands_t_status: "t_status (tasks (set_commands gc ts s) u) = t_status (tasks s u)"
  by (induction ts arbitrary: s) simp_all

lemma run_setup_frame:
  assumes T: "\<And>f s. P (tasks_update f s) = P s" and Q: "\<And>f s. P (task_queue_update f s) = P s"
  shows "P (snd (run_setup task_g od ld gc s)) = P s"
proof -
  let ?done = "filter (\<lambda>t. t_status (tasks s t) = TS_successful) (nodes task_g)"
  let ?s1 = "s\<lparr>task_queue := remove_nodes_from ?done (copy_graph task_g)\<rparr>"
  let ?ds = "map (\<lambda>t. log_dir (tasks ?s1 t)) ?done"
  obtain r2 s2 where d: "set_dirs od ld ?ds (nodes (task_queue ?s1)) ?s1 = (r2, s2)"
    by (cases "set_dirs od ld ?ds (nodes (task_queue ?s1)) ?s1")
  have "P s2 = P ?s1" using set_dirs_frame [of P od ld ?ds "nodes (task_queue ?s1)" ?s1] T d by simp
  then have "P s2 = P s" by (simp add: Q)
  moreover have "P (set_commands gc (nodes (task_queue s2)) s2) = P s2"
    using T by (rule set_commands_frame)
  ultimately show ?thesis using d by (simp add: run_setup_def Let_def split: option.splits)
qed

lemma run_setup_t_status:
  "t_status (tasks (snd (run_setup task_g od ld gc s)) u) = t_status (tasks s u)"
proof -
  let ?done = "filter (\<lambda>t. t_status (tasks s t) = TS_successful) (nodes task_g)"
  let ?s1 = "s\<lparr>task_queue := remove_nodes_from ?done (copy_graph task_g)\<rparr>"
  let ?ds = "map (\<lambda>t. log_dir (tasks ?s1 t)) ?done"
  obtain r2 s2 where d: "set_dirs od ld ?ds (nodes (task_queue ?s1)) ?s1 = (r2, s2)"
    by (cases "set_dirs od ld ?ds (nodes (task_queue ?s1)) ?s1")
  have "t_status (tasks s2 u) = t_status (tasks ?s1 u)"
    using set_dirs_t_status [of od ld ?ds "nodes (task_queue ?s1)" ?s1 u] d by simp
  then show ?thesis using d
    by (simp add: run_setup_def Let_def set_commands_t_status split: option.splits)
qed

lemma status_set_status: "status (set_status v t e) = v"
  by (simp add: set_status_def execution_status_changed_def Let_def)

lemma run_begin_ex:
  "status (ex (run_begin s)) = ES_running \<and> \<not> successful (ex (run_begin s))
   \<and> finished_on (ex (run_begin s)) = finished_on (ex s)
   \<and> max_cpus (ex (run_begin s)) = max_cpus (ex s)"
  by (simp add: run_begin_def Let_def set_status_def execution_status_changed_def)

lemma run_begin_state:
  "jobmanager (run_begin s) = Some \<lparr>running_tasks = [], kill_sent = []\<rparr>
   \<and> tasks (run_begin s) = tasks s \<and> drm (run_begin s) = drm s \<and> now (run_begin s) = now s"
  by (simp add: run_begin_def Let_def)

text \<open>
  Claim C10. A call of \<open>run\<close> with \<open>dry = True\<close> always returns. When it returns without
  an exception (the set-up has passed), the job manager is the new one with no task in
  flight, no task has changed its status (none is \<open>submitted\<close>), the status of the
  execution is \<open>running\<close> and its \<open>successful\<close> flag is false.
\<close>

theorem dry_run_submits_nothing:
  "run task_g od ld gc True s \<noteq> None
   \<and> (run task_g od ld gc True s = Some (None, s') \<longrightarrow>
        jobmanager s' = Some \<lparr>running_tasks = [], kill_sent = []\<rparr>
        \<and> (\<forall>t. t_status (tasks s' t) = t_status (tasks s t))
        \<and> status (ex s') = ES_running \<and> \<not> successful (ex s'))"
proof (cases "session (ex s)")
  case False
  then show ?thesis by (simp add: run_def run_try_def)
next
  case True
  obtain r1 s1 where d: "run_setup task_g od ld gc (run_begin s) = (r1, s1)"
    by (cases "run_setup task_g od ld gc (run_begin s)")
  have rt: "run_try task_g od ld gc True s =
      (case r1 of Some e \<Rightarrow> Some (Some e, s1) | None \<Rightarrow> Some (None, s1))"
    using True d by (simp add: run_try_def split: option.splits)
  have returns: "run task_g od ld gc True s \<noteq> None"
    using rt by (simp add: run_def split: option.splits)
  have e1: "ex s1 = ex (run_begin s)"
    using run_setup_frame [of ex task_g od ld gc "run_begin s"] d by simp
  have j1: "jobmanager s1 = jobmanager (run_begin s)"
    using run_setup_frame [of jobmanager task_g od ld gc "run_begin s"] d by simp
  have t1: "\<And>u. t_status (tasks s1 u) = t_status (tasks (run_begin s) u)"
    using run_setup_t_status [of task_g od ld gc "run_begin s"] d by simp
  have "run task_g od ld gc True s = Some (None, s') \<longrightarrow>
        jobmanager s' = Some \<lparr>running_tasks = [], kill_sent = []\<rparr>
        \<and> (\<forall>t. t_status (tasks s' t) = t_status (tasks s t))
        \<and> status (ex s') = ES_running \<and> \<not> successful (ex s')"
  proof
    assume "run task_g od ld gc True s = Some (None, s')"
    then have s': "s' = s1"
      using rt by (auto simp: run_def split: option.splits if_splits)
    show "jobmanager s' = Some \<lparr>running_tasks = [], kill_sent = []\<rparr>
        \<and> (\<forall>t. t_status (tasks s' t) = t_status (tasks s t))
        \<and> status (ex s') = ES_running \<and> \<not> successful (ex s')"
      using s' e1 j1 t1 run_begin_ex [of s] run_begin_state [of s] by simp
  qed
  then show ?thesis using returns by simp
qed

text \<open>A dry run of two tasks, the second depending on the first.\<close>

theorem dry_run_submits_nothing_witness:
  "\<exists>s'. run \<lparr>nodes = [1, 2], edges = [(1, 2)]\<rparr> out_dir log_dir_of command_of True
          (started None (\<lambda>t. new_task 1 False) [exit_with 1 0, exit_with 2 0]) = Some (None, s')
     \<and> jobmanager s' = Some \<lparr>running_tasks = [], kill_sent = []\<rparr>
     \<and> (\<forall>t. t_status (tasks s' t) = TS_no_attempt)
     \<and> status (ex s') = ES_running \<and> \<not> successful (ex s')"
proof -
  let ?s = "started None (\<lambda>t. new_task 1 False) [exit_with 1 0, exit_with 2 0]"
  have "observe [1, 2] (run \<lparr>nodes = [1, 2], edges = [(1, 2)]\<rparr> out_dir log_dir_of command_of True ?s)
      = Some (None, ES_running, False, [TS_no_attempt, TS_no_attempt], [1, 2], [])"
    by code_simp
  then obtain s' where r: "run \<lparr>nodes = [1, 2], edges = [(1, 2)]\<rparr> out_dir log_dir_of command_of True ?s
      = Some (None, s')"
    by (auto simp: observe_def)
  have "\<And>t. t_status (tasks ?s t) = TS_no_attempt" by (simp add: started_def new_task_def)
  then show ?thesis
    using r dry_run_submits_nothing [of "\<lparr>nodes = [1, 2], edges = [(1, 2)]\<rparr>" out_dir log_dir_of
        command_of ?s s']
    by simp
qed

section \<open>What a soft failure does to the run\<close>

lemma run_loop_drained: "run_loop s = Some (None, s') \<Longrightarrow> nodes (task_queue s') = []"
proof (induction s rule: run_loop.induct)
  case (1 s)
  show ?case
  proof (cases "length (nodes (task_queue s)) > 0")
    case False
    then show ?thesis using "1.prems" by (simp add: run_loop.simps)
  next
    case True
    obtain r1 s1 where a: "run_ready_tasks s = (r1, s1)" by (cases "run_ready_tasks s")
    have r1: "r1 = None"
      using "1.prems" True a by (cases r1) (simp_all add: run_loop.simps)
    obtain r2 s2 where b: "process_finished_tasks True remove_node s1 = Some (r2, s2)"
      using "1.prems" True a r1 by (auto simp: run_loop.simps split: option.splits)
    have r2: "r2 = None"
      using "1.prems" True a r1 b by (cases r2) (simp_all add: run_loop.simps)
    have "run_loop s2 = Some (None, s')"
      using "1.prems" True a r1 b r2 by (simp add: run_loop.simps)
    then show ?thesis using "1.IH" [OF True a [symmetric] r1 b refl r2] by simp
  qed
qed

lemma set_status_successful:
  "status e \<noteq> ES_successful \<Longrightarrow>
   status (set_status ES_successful t e) = ES_successful \<and> successful (set_status ES_successful t e)
   \<and> finished_on (set_status ES_successful t e) = Some t"
  by (simp add: set_status_def execution_status_changed_def)

lemma run_try_returns:
  assumes "run_try task_g od ld gc False s = Some (None, s')"
  shows "status (ex s') = ES_successful \<and> successful (ex s') \<and> finished_on (ex s') \<noteq> None
         \<and> nodes (task_queue s') = []"
proof -
  have sess: "session (ex s)"
    using assms by (cases "session (ex s)") (simp_all add: run_try_def)
  obtain r1 s1 where d: "run_setup task_g od ld gc (run_begin s) = (r1, s1)"
    by (cases "run_setup task_g od ld gc (run_begin s)")
  have r1: "r1 = None"
    using assms sess d by (cases r1) (simp_all add: run_try_def)
  obtain r2 s2 where l: "run_loop s1 = Some (r2, s2)"
    using assms sess d r1 by (cases "run_loop s1") (auto simp: run_try_def)
  have r2: "r2 = None"
    using assms sess d r1 l by (cases r2) (simp_all add: run_try_def)
  have s': "s' = s2\<lparr>ex := set_status ES_successful (now s2) (ex s2)\<rparr>"
    using assms sess d r1 l r2 by (simp add: run_try_def)
  have "ex s1 = ex (run_begin s)"
    using run_setup_frame [of ex task_g od ld gc "run_begin s"] d by simp
  moreover have "ex s2 = ex s1" using run_loop_frame [of ex s1 r2 s2] l by simp
  ultimately have "status (ex s2) = ES_running" using run_begin_ex [of s] by simp
  then have "status (ex s2) \<noteq> ES_successful" by simp
  from set_status_successful [OF this, of "now s2"] run_loop_drained [of s1 s2] l r2 s'
  show ?thesis by simp
qed

text \<open>
  Claim C1 as stated fails. Task 1 has \<open>must_succeed = False\<close> and ends with exit status 1;
  task 2 depends on it and ends with exit status 0. The run returns without an exception,
  both tasks have left the queue, task 1 is \<open>failed\<close>, and the status of the execution is
  \<open>successful\<close> with the flag set, not \<open>failed\<close>.
\<close>

theorem soft_failure_ends_successful:
  "\<not> must_succeed (tasks (started None (\<lambda>t. new_task 1 False) [exit_with 1 1, exit_with 2 0]) 1)
   \<and> observe [1, 2]
       (run \<lparr>nodes = [1, 2], edges = [(1, 2)]\<rparr> out_dir log_dir_of command_of False
          (started None (\<lambda>t. new_task 1 False) [exit_with 1 1, exit_with 2 0]))
     = Some (None, ES_successful, True, [TS_failed, TS_successful], [], [])"
  by code_simp

text \<open>
  Claim C1, amended. A finished task with \<open>must_succeed = False\<close> that is neither \<open>NOOP\<close>
  nor ended with exit status 0, and that is still in the queue, is removed from the queue
  and marked \<open>failed\<close> without an exception, so the loop goes on. When the queue has
  drained and \<open>run\<close> returns, the status of the execution is \<open>successful\<close> and its flag is
  set: the code keeps no record of soft failures.
\<close>

theorem soft_failure_then_successful:
  "(\<not> (map_of (profile (tasks q t)) ''exit_status'' = Some 0 \<or> NOOP (tasks q t))
      \<and> \<not> must_succeed (tasks q t) \<and> t \<in> set (nodes (task_queue q))
    \<longrightarrow> fst (process_task remove_node t q) = None
        \<and> t_status (tasks (snd (process_task remove_node t q)) t) = TS_failed
        \<and> t \<notin> set (nodes (task_queue (snd (process_task remove_node t q)))))
   \<and> (run task_g od ld gc False s = Some (None, s')
    \<longrightarrow> status (ex s') = ES_successful \<and> successful (ex s') \<and> nodes (task_queue s') = [])"
proof -
  have "run task_g od ld gc False s = Some (None, s')
    \<longrightarrow> status (ex s') = ES_successful \<and> successful (ex s') \<and> nodes (task_queue s') = []"
  proof
    assume "run task_g od ld gc False s = Some (None, s')"
    then have "run_try task_g od ld gc False s = Some (None, s')"
      by (auto simp: run_def split: option.splits if_splits)
    then show "status (ex s') = ES_successful \<and> successful (ex s') \<and> nodes (task_queue s') = []"
      using run_try_returns by blast
  qed
  then show ?thesis
    by (simp add: process_task_def remove_node_def set_task_status_def remove_node_graph_def Let_def)
qed

text \<open>
  The scenario of the counterexample: task 1 fails softly, task 2 depends on it. Task 1
  in flight is processed as the first part says, and the run ends as the second part says.
\<close>

theorem soft_failure_then_successful_witness:
  "(fst (process_task remove_node 1 (in_flight False [])) = None
      \<and> t_status (tasks (snd (process_task remove_node 1 (in_flight False []))) 1) = TS_failed
      \<and> 1 \<notin> set (nodes (task_queue (snd (process_task remove_node 1 (in_flight False []))))))
   \<and> (\<exists>s'. run \<lparr>nodes = [1, 2], edges = [(1, 2)]\<rparr> out_dir log_dir_of command_of False
          (started None (\<lambda>t. new_task 1 False) [exit_with 1 1, exit_with 2 0]) = Some (None, s')
        \<and> t_status (tasks s' 1) = TS_failed
        \<and> status (ex s') = ES_successful \<and> successful (ex s') \<and> nodes (task_queue s') = [])"
proof -
  let ?s = "started None (\<lambda>t. new_task 1 False) [exit_with 1 1, exit_with 2 0]"
  let ?g = "\<lparr>nodes = [1, 2], edges = [(1, 2)]\<rparr>"
  have "observe [1] (run ?g out_dir log_dir_of command_of False ?s)
      = Some (None, ES_successful, True, [TS_failed], [], [])"
    by code_simp
  then obtain s' where r: "run ?g out_dir log_dir_of command_of False ?s = Some (None, s')"
    and f: "t_status (tasks s' 1) = TS_failed"
    by (auto simp: observe_def)
  have h: "\<not> (map_of (profile (tasks (in_flight False []) 1)) ''exit_status'' = Some 0
        \<or> NOOP (tasks (in_flight False []) 1))
      \<and> \<not> must_succeed (tasks (in_flight False []) 1)
      \<and> 1 \<in> set (nodes (task_queue (in_flight False [])))"
    by (simp add: in_flight_def new_task_def)
  show ?thesis
    using h r f
      soft_failure_then_successful [where q = "in_flight False []" and t = 1 and task_g = ?g
        and od = out_dir and ld = log_dir_of and gc = command_of and s = ?s and s' = s']
    by blast
qed

section \<open>The status of finished tasks\<close>

lemma process_task_remove:
  assumes "process_task remove_node t s = (r, s')"
  shows "(\<forall>u. u \<noteq> t \<longrightarrow> tasks s' u = tasks s u)
    \<and> final_status (tasks s' t) = final_status (tasks s t)
    \<and> must_succeed (tasks s' t) = must_succeed (tasks s t)
    \<and> (t_status (tasks s' t) = t_status (tasks s t)
        \<or> t_status (tasks s' t) = final_status (tasks s t))
    \<and> (r = None \<or> r = Some ExecutionFailed \<longrightarrow> t_status (tasks s' t) = final_status (tasks s t))
    \<and> (r = Some ExecutionFailed \<longrightarrow> must_succeed (tasks s' t) \<and> t_status (tasks s' t) = TS_failed)"
  using assms
  by (auto simp: process_task_def remove_node_def set_task_status_def final_status_def Let_def
      split: if_splits)

lemma for_finished_status:
  "for_finished remove_node ts s = (r, s') \<Longrightarrow>
   (\<forall>t. final_status (tasks s' t) = final_status (tasks s t))
   \<and> (\<forall>t. t_status (tasks s' t) = t_status (tasks s t)
          \<or> (t \<in> set ts \<and> t_status (tasks s' t) = final_status (tasks s t)))
   \<and> (r = None \<longrightarrow> (\<forall>t \<in> set ts. t_status (tasks s' t) = final_status (tasks s t)))"
proof (induction ts arbitrary: s)
  case Nil
  then show ?case by simp
next
  case (Cons a ts)
  obtain r1 s1 where p: "process_task remove_node a s = (r1, s1)"
    by (cases "process_task remove_node a s")
  note one = process_task_remove [OF p]
  have f1: "\<And>t. final_status (tasks s1 t) = final_status (tasks s t)"
    using one by metis
  have c1: "\<And>t. t_status (tasks s1 t) = t_status (tasks s t)
      \<or> (t = a \<and> t_status (tasks s1 t) = final_status (tasks s t))"
    using one by metis
  show ?case
  proof (cases r1)
    case (Some e)
    then have "r = Some e \<and> s' = s1" using Cons.prems p by simp
    then show ?thesis using f1 c1 by auto
  next
    case None
    then have rest: "for_finished remove_node ts s1 = (r, s')" using Cons.prems p by simp
    note ih = Cons.IH [OF rest]
    have a1: "t_status (tasks s1 a) = final_status (tasks s a)" using one None by simp
    have g1: "\<forall>t. final_status (tasks s' t) = final_status (tasks s t)"
      using ih f1 by simp
    have g2: "\<forall>t. t_status (tasks s' t) = t_status (tasks s t)
          \<or> (t \<in> set (a # ts) \<and> t_status (tasks s' t) = final_status (tasks s t))"
    proof
      fix t
      from ih have "t_status (tasks s' t) = t_status (tasks s1 t)
          \<or> (t \<in> set ts \<and> t_status (tasks s' t) = final_status (tasks s1 t))" by blast
      then show "t_status (tasks s' t) = t_status (tasks s t)
          \<or> (t \<in> set (a # ts) \<and> t_status (tasks s' t) = final_status (tasks s t))"
        using c1 [of t] f1 [of t] by auto
    qed
    have g3: "r = None \<longrightarrow> (\<forall>t \<in> set (a # ts). t_status (tasks s' t) = final_status (tasks s t))"
    proof (intro impI ballI)
      fix t
      assume rn: "r = None" and t: "t \<in> set (a # ts)"
      from ih have d: "t_status (tasks s' t) = t_status (tasks s1 t)
          \<or> (t \<in> set ts \<and> t_status (tasks s' t) = final_status (tasks s1 t))" by blast
      from ih rn have e: "t \<in> set ts \<Longrightarrow> t_status (tasks s' t) = final_status (tasks s1 t)"
        by blast
      show "t_status (tasks s' t) = final_status (tasks s t)"
        using t d e a1 f1 [of t] by auto
    qed
    show ?thesis using g1 g2 g3 by blast
  qed
qed

lemma for_finished_raises:
  "for_finished remove_node ts s = (Some e, s') \<Longrightarrow>
   \<exists>pre t post s1. ts = pre @ t # post \<and> for_finished remove_node pre s = (None, s1)
     \<and> process_task remove_node t s1 = (Some e, s')"
proof (induction ts arbitrary: s)
  case Nil
  then show ?case by simp
next
  case (Cons a ts)
  obtain r1 s1 where p: "process_task remove_node a s = (r1, s1)"
    by (cases "process_task remove_node a s")
  show ?case
  proof (cases r1)
    case (Some x)
    then have "x = e \<and> s1 = s'" using Cons.prems p by simp
    then have "a # ts = [] @ a # ts \<and> for_finished remove_node [] s = (None, s)
        \<and> process_task remove_node a s = (Some e, s')"
      using p Some by simp
    then show ?thesis by blast
  next
    case None
    then have "for_finished remove_node ts s1 = (Some e, s')" using Cons.prems p by simp
    from Cons.IH [OF this] obtain pre t post s2 where
      "ts = pre @ t # post" "for_finished remove_node pre s1 = (None, s2)"
      "process_task remove_node t s2 = (Some e, s')"
      by blast
    then have "a # ts = (a # pre) @ t # post \<and> for_finished remove_node (a # pre) s = (None, s2)
        \<and> process_task remove_node t s2 = (Some e, s')"
      using p None by simp
    then show ?thesis by blast
  qed
qed

lemma for_finished_failed_prefix:
  assumes "for_finished remove_node ts s = (Some ExecutionFailed, s')"
  shows "\<exists>pre t post. ts = pre @ t # post
     \<and> must_succeed (tasks s t) \<and> final_status (tasks s t) = TS_failed
     \<and> (\<forall>u \<in> set (pre @ [t]). t_status (tasks s' u) = final_status (tasks s u))
     \<and> (\<forall>u. u \<notin> set (pre @ [t]) \<longrightarrow> t_status (tasks s' u) = t_status (tasks s u))"
proof -
  from for_finished_raises [OF assms] obtain pre t post s1 where
    ts: "ts = pre @ t # post" and pre: "for_finished remove_node pre s = (None, s1)"
    and pt: "process_task remove_node t s1 = (Some ExecutionFailed, s')"
    by blast
  note a = for_finished_status [OF pre]
  note b = process_task_remove [OF pt]
  have f1: "\<And>u. final_status (tasks s1 u) = final_status (tasks s u)" using a by blast
  have t1: "must_succeed (tasks s' t) \<and> t_status (tasks s' t) = TS_failed
      \<and> t_status (tasks s' t) = final_status (tasks s1 t)
      \<and> must_succeed (tasks s' t) = must_succeed (tasks s1 t)"
    using b by blast
  have oth: "\<And>u. u \<noteq> t \<Longrightarrow> tasks s' u = tasks s1 u" using b by blast
  have ms: "must_succeed (tasks s1 t) = must_succeed (tasks s t)"
  proof -
    have "\<And>q q' r us. for_finished remove_node us q = (r, q') \<Longrightarrow>
        must_succeed (tasks q' t) = must_succeed (tasks q t)"
    proof -
      fix q q' r us
      show "for_finished remove_node us q = (r, q') \<Longrightarrow>
          must_succeed (tasks q' t) = must_succeed (tasks q t)"
      proof (induction us arbitrary: q)
        case Nil
        then show ?case by simp
      next
        case (Cons x xs)
        obtain r0 q0 where p0: "process_task remove_node x q = (r0, q0)"
          by (cases "process_task remove_node x q")
        have m0: "must_succeed (tasks q0 t) = must_succeed (tasks q t)"
          using process_task_remove [OF p0] by (cases "t = x") auto
        show ?case
        proof (cases r0)
          case (Some y)
          then show ?thesis using Cons.prems p0 m0 by simp
        next
          case None
          then have "for_finished remove_node xs q0 = (r, q')" using Cons.prems p0 by simp
          then show ?thesis using Cons.IH m0 by simp
        qed
      qed
    qed
    then show ?thesis using pre by blast
  qed
  have c1: "must_succeed (tasks s t) \<and> final_status (tasks s t) = TS_failed"
    using t1 ms f1 [of t] by metis
  have c2: "\<forall>u \<in> set (pre @ [t]). t_status (tasks s' u) = final_status (tasks s u)"
  proof
    fix u
    assume u: "u \<in> set (pre @ [t])"
    show "t_status (tasks s' u) = final_status (tasks s u)"
    proof (cases "u = t")
      case True
      then show ?thesis using t1 f1 [of t] by metis
    next
      case False
      then have "u \<in> set pre" using u by simp
      then have "t_status (tasks s1 u) = final_status (tasks s u)" using a by blast
      then show ?thesis using oth [OF False] by simp
    qed
  qed
  have c3: "\<forall>u. u \<notin> set (pre @ [t]) \<longrightarrow> t_status (tasks s' u) = t_status (tasks s u)"
  proof (intro allI impI)
    fix u
    assume u: "u \<notin> set (pre @ [t])"
    then have "u \<noteq> t" and "u \<notin> set pre" by simp_all
    then have "t_status (tasks s1 u) = t_status (tasks s u)" using a by blast
    then show "t_status (tasks s' u) = t_status (tasks s u)" using oth [OF \<open>u \<noteq> t\<close>] by simp
  qed
  show ?thesis using ts c1 c2 c3 by blast
qed

lemma get_finished_tasks_t_status:
  "get_finished_tasks b jm d s = Some (ts, s1) \<Longrightarrow> t_status (tasks s1 t) = t_status (tasks s t)"
  by (induction d) (auto simp: deliver_def split: if_splits)

text \<open>
  Claim C7 as stated fails. In one batch \<open>get_finished_tasks\<close> returns task 1, which must
  succeed and has exit status 1, and task 2 with exit status 0. Assigning \<open>failed\<close> to
  task 1 raises \<open>ExecutionFailed\<close>, the generator is abandoned, and task 2 keeps the
  status \<open>submitted\<close>: it is not set to \<open>successful\<close>, neither there nor by \<open>terminate\<close>
  in the handler of \<open>run\<close>.
\<close>

theorem finished_task_left_unprocessed:
  "observe [1, 2] (process_finished_tasks True remove_node failing_batch)
     = Some (Some ExecutionFailed, ES_running, False, [TS_failed, TS_submitted], [1, 2], [])
   \<and> observe [1, 2]
       (run \<lparr>nodes = [1, 2], edges = []\<rparr> out_dir log_dir_of command_of False
          (started None (\<lambda>t. new_task 1 (t = 1)) [exit_with 1 1 @ exit_with 2 0]))
     = Some (Some ExecutionFailed, ES_killed, False, [TS_failed, TS_submitted], [1, 2], [])"
  by code_simp

text \<open>
  Claim C7, amended. Let \<open>ts\<close> be the tasks that \<open>get_finished_tasks\<close> returns, with their
  profiles in the heap of \<open>s1\<close>, and let the loop of \<open>run\<close> consume
  \<open>_process_finished_tasks\<close>. A task changes its status only if it is one of \<open>ts\<close>, and
  then to the status of the rule. When the generator is exhausted without an exception,
  every task of \<open>ts\<close> has the status of the rule. When the iteration ends with
  \<open>ExecutionFailed\<close>, it ends at a task of \<open>ts\<close> that must succeed and whose status by the
  rule is \<open>failed\<close>: the tasks of \<open>ts\<close> up to and including this one have the status of
  the rule, and every other task has the status it had.
\<close>

theorem finished_tasks_status:
  assumes "jobmanager s = Some jm"
    and "get_finished_tasks at_least_one jm (drm s) s = Some (ts, s1)"
    and "process_finished_tasks at_least_one remove_node s = Some (r, s')"
  shows "(\<forall>t. t_status (tasks s' t) = t_status (tasks s t)
            \<or> (t \<in> set ts \<and> t_status (tasks s' t) = final_status (tasks s1 t)))
       \<and> (r = None \<longrightarrow> (\<forall>t \<in> set ts. t_status (tasks s' t) = final_status (tasks s1 t)))
       \<and> (r = Some ExecutionFailed \<longrightarrow>
            (\<exists>pre t post. ts = pre @ t # post
               \<and> must_succeed (tasks s1 t) \<and> final_status (tasks s1 t) = TS_failed
               \<and> (\<forall>u \<in> set (pre @ [t]). t_status (tasks s' u) = final_status (tasks s1 u))
               \<and> (\<forall>u. u \<notin> set (pre @ [t]) \<longrightarrow> t_status (tasks s' u) = t_status (tasks s u))))"
proof -
  have f: "for_finished remove_node ts s1 = (r, s')"
    using assms by (simp add: process_finished_tasks_def)
  have same: "\<And>t. t_status (tasks s1 t) = t_status (tasks s t)"
    using assms(2) by (rule get_finished_tasks_t_status)
  have "r = Some ExecutionFailed \<longrightarrow>
            (\<exists>pre t post. ts = pre @ t # post
               \<and> must_succeed (tasks s1 t) \<and> final_status (tasks s1 t) = TS_failed
               \<and> (\<forall>u \<in> set (pre @ [t]). t_status (tasks s' u) = final_status (tasks s1 u))
               \<and> (\<forall>u. u \<notin> set (pre @ [t]) \<longrightarrow> t_status (tasks s' u) = t_status (tasks s u)))"
  proof
    assume "r = Some ExecutionFailed"
    then have "for_finished remove_node ts s1 = (Some ExecutionFailed, s')" using f by simp
    from for_finished_failed_prefix [OF this] show "\<exists>pre t post. ts = pre @ t # post
               \<and> must_succeed (tasks s1 t) \<and> final_status (tasks s1 t) = TS_failed
               \<and> (\<forall>u \<in> set (pre @ [t]). t_status (tasks s' u) = final_status (tasks s1 u))
               \<and> (\<forall>u. u \<notin> set (pre @ [t]) \<longrightarrow> t_status (tasks s' u) = t_status (tasks s u))"
      using same by simp
  qed
  then show ?thesis using for_finished_status [OF f] same by simp
qed

text \<open>
  In the scenario with two tasks in flight, task 1 becomes \<open>successful\<close> and task 2
  \<open>failed\<close>; no other task changes. In the batch of the counterexample task 1 becomes
  \<open>failed\<close> and task 2 stays \<open>submitted\<close>.
\<close>

theorem finished_tasks_status_witness:
  "(\<exists>s'. process_finished_tasks True remove_node two_in_flight = Some (None, s')
     \<and> t_status (tasks s' 1) = TS_successful \<and> t_status (tasks s' 2) = TS_failed
     \<and> (\<forall>t. t \<noteq> 1 \<and> t \<noteq> 2 \<longrightarrow> t_status (tasks s' t) = TS_submitted))
   \<and> (\<exists>s'. process_finished_tasks True remove_node failing_batch = Some (Some ExecutionFailed, s')
     \<and> t_status (tasks s' 1) = TS_failed \<and> t_status (tasks s' 2) = TS_submitted)"
proof -
  let ?jm = "\<lparr>running_tasks = [1, 2], kill_sent = []\<rparr>"
  let ?s1 = "(deliver (exit_with 1 0 @ exit_with 2 3) ?jm two_in_flight)\<lparr>drm := []\<rparr>"
  have j: "jobmanager two_in_flight = Some ?jm" by (simp add: two_in_flight_def)
  have g: "get_finished_tasks True ?jm (drm two_in_flight) two_in_flight = Some ([1, 2], ?s1)"
    by (simp add: two_in_flight_def reported_def exit_with_def)
  have "observe [] (process_finished_tasks True remove_node two_in_flight)
      = Some (None, ES_running, False, [], [], [])"
    by code_simp
  then obtain s' where p: "process_finished_tasks True remove_node two_in_flight = Some (None, s')"
    by (auto simp: observe_def)
  have f: "final_status (tasks ?s1 1) = TS_successful \<and> final_status (tasks ?s1 2) = TS_failed"
    by (simp add: final_status_def deliver_def two_in_flight_def reported_def exit_with_def
        new_task_def)
  have u: "\<And>t. t_status (tasks two_in_flight t) = TS_submitted"
    by (simp add: two_in_flight_def)
  have first: "\<exists>s'. process_finished_tasks True remove_node two_in_flight = Some (None, s')
     \<and> t_status (tasks s' 1) = TS_successful \<and> t_status (tasks s' 2) = TS_failed
     \<and> (\<forall>t. t \<noteq> 1 \<and> t \<noteq> 2 \<longrightarrow> t_status (tasks s' t) = TS_submitted)"
    using p f u finished_tasks_status [OF j g p] by auto
  let ?q1 = "(deliver (exit_with 1 1 @ exit_with 2 0) ?jm failing_batch)\<lparr>drm := []\<rparr>"
  have j2: "jobmanager failing_batch = Some ?jm" by (simp add: failing_batch_def)
  have g2: "get_finished_tasks True ?jm (drm failing_batch) failing_batch = Some ([1, 2], ?q1)"
    by (simp add: failing_batch_def reported_def exit_with_def)
  have "observe [1, 2] (process_finished_tasks True remove_node failing_batch)
      = Some (Some ExecutionFailed, ES_running, False, [TS_failed, TS_submitted], [1, 2], [])"
    by code_simp
  then obtain q' where p2: "process_finished_tasks True remove_node failing_batch
      = Some (Some ExecutionFailed, q')"
    and st: "t_status (tasks q' 1) = TS_failed \<and> t_status (tasks q' 2) = TS_submitted"
    by (auto simp: observe_def)
  note thm2 = finished_tasks_status [OF j2 g2 p2]
  have second: "\<exists>s'. process_finished_tasks True remove_node failing_batch
        = Some (Some ExecutionFailed, s')
     \<and> t_status (tasks s' 1) = TS_failed \<and> t_status (tasks s' 2) = TS_submitted"
    using p2 st thm2 by blast
  show ?thesis using first second by blast
qed

text \<open>
  Claim C3 at its failing input: task 1 has \<open>must_succeed = False\<close>, is in flight, and ends
  with exit status 1. The generator yields it before it assigns \<open>failed\<close>, so the body of
  the consuming loop meets it with the status it had when submitted: a body that asserts
  a terminal status before \<open>remove_node\<close> fails. A task that ends with exit status 0
  passes the same assertion. With the body of \<open>run\<close> the task is removed first and
  \<open>failed\<close> afterwards.
\<close>

theorem soft_failure_removed_before_failed:
  "observe [1] (process_finished_tasks True asserting_remove_node (in_flight False [exit_with 1 1]))
     = Some (Some (AssertionError ''removed before its status is terminal''),
             ES_running, False, [TS_submitted], [1], [])
   \<and> observe [1] (process_finished_tasks True asserting_remove_node (in_flight False [exit_with 1 0]))
     = Some (None, ES_running, False, [TS_successful], [], [])
   \<and> observe [1] (process_finished_tasks True remove_node (in_flight False [exit_with 1 1]))
     = Some (None, ES_running, False, [TS_failed], [], [])"
  by code_simp

section \<open>Failure of a task that must succeed\<close>


lemma set_dirs_not_failed: "fst (set_dirs od ld ds ts s) \<noteq> Some ExecutionFailed"
proof (induction ts arbitrary: s ds)
  case Nil
  show ?case by simp
next
  case (Cons t ts)
  let ?s1 = "s\<lparr>tasks := (tasks s)(t := (tasks s t)\<lparr>t_output_dir := Some (od s t)\<rparr>)\<rparr>"
  let ?s2 = "?s1\<lparr>tasks := (tasks ?s1)(t := (tasks ?s1 t)\<lparr>log_dir := Some (ld ?s1 t)\<rparr>)\<rparr>"
  obtain r3 s3 where a: "render_paths t ?s2 = (r3, s3)" by (cases "render_paths t ?s2")
  have n: "r3 \<noteq> Some ExecutionFailed"
    using a by (auto simp: render_paths_def Let_def split: if_splits option.splits)
  have ih: "fst (set_dirs od ld (ds @ [Some (ld ?s1 t)]) ts s3) \<noteq> Some ExecutionFailed"
    by (rule Cons.IH)
  show ?case using a n ih by (auto simp: Let_def split: option.splits)
qed

lemma run_setup_not_failed: "fst (run_setup task_g od ld gc s) \<noteq> Some ExecutionFailed"
proof -
  let ?done = "filter (\<lambda>t. t_status (tasks s t) = TS_successful) (nodes task_g)"
  let ?s1 = "s\<lparr>task_queue := remove_nodes_from ?done (copy_graph task_g)\<rparr>"
  let ?ds = "map (\<lambda>t. log_dir (tasks ?s1 t)) ?done"
  obtain r2 s2 where d: "set_dirs od ld ?ds (nodes (task_queue ?s1)) ?s1 = (r2, s2)"
    by (cases "set_dirs od ld ?ds (nodes (task_queue ?s1)) ?s1")
  have "r2 \<noteq> Some ExecutionFailed"
    using set_dirs_not_failed [of od ld ?ds "nodes (task_queue ?s1)" ?s1] d by simp
  then show ?thesis using d by (auto simp: run_setup_def Let_def split: option.splits)
qed





text \<open>A second call of \<open>terminate\<close> changes nothing.\<close>

lemma terminate_idempotent: "terminate (terminate s) = terminate s"
proof -
  have "\<And>xs ys. filter (\<lambda>t. t \<notin> set (xs @ filter (\<lambda>t. t \<notin> set xs) ys)) ys = []"
    by (auto simp: filter_empty_conv)
  then show ?thesis
    by (cases "jobmanager s")
      (simp_all add: terminate_def jm_terminate_def set_status_def execution_status_changed_def
        Let_def)
qed





text \<open>
  Claim C4 at its failing input: task 1 is in flight and the DRM has its completion
  (exit status 0) ready. \<open>terminate\<close> sets the status \<open>killed\<close> and has the job manager
  kill task 1, but the finished task is not drained: it is still \<open>submitted\<close> and in
  \<open>running_tasks\<close>, and the DRM's report has not been taken. Iterating the generator
  once, as the last conjunct does, would have made the task \<open>successful\<close>.
\<close>

theorem terminate_does_not_drain:
  "observe [1] (Some (None, terminate (in_flight False [exit_with 1 0])))
     = Some (None, ES_killed, False, [TS_submitted], [1], [1])
   \<and> drm (terminate (in_flight False [exit_with 1 0])) = [exit_with 1 0]
   \<and> map_option kill_sent (jobmanager (terminate (in_flight False [exit_with 1 0]))) = Some [1]
   \<and> observe [1] (process_finished_tasks False (\<lambda>t s. (None, s)) (in_flight False [exit_with 1 0]))
     = Some (None, ES_running, False, [TS_successful], [1], [])"
  by code_simp

section \<open>Admission and the CPU budget\<close>

lemma running_simps [simp]:
  "running (tasks_update f s) = running s"
  "running (task_queue_update g s) = running s"
  "running (drm_update h s) = running s"
  "running (ex_update k s) = running s"
  by (simp_all add: running_def)

lemma render_paths_cpu: "cpu_req (tasks (snd (render_paths t s)) u) = cpu_req (tasks s u)"
  by (simp add: render_paths_def Let_def split: option.splits)

lemma submit_effect:
  assumes "jobmanager s = Some jm"
  shows "fst (submit t s) = None \<and> running (snd (submit t s)) = running s @ [t]
    \<and> (\<forall>u. cpu_req (tasks (snd (submit t s)) u) = cpu_req (tasks s u))"
  using assms by (simp add: submit_def set_task_status_def running_def Let_def)

lemma cores_used_append:
  assumes "running s' = running s @ ts" and "\<And>u. cpu_req (tasks s' u) = cpu_req (tasks s u)"
  shows "cores_used s' = cores_used s + sum_list (map (\<lambda>t. cpu_req (tasks s t)) ts)"
  using assms by (simp add: cores_used_def)

lemma sweep_admits:
  "max_cpus (ex s) = Some m \<Longrightarrow> sweep cs s = (r, s') \<Longrightarrow>
   \<exists>k \<le> length cs. running s' = running s @ take k cs
     \<and> (\<forall>u. cpu_req (tasks s' u) = cpu_req (tasks s u))
     \<and> (\<forall>i < k. cores_used s + sum_list (map (\<lambda>t. cpu_req (tasks s t)) (take (Suc i) cs)) \<le> m)
     \<and> (r = None \<and> k < length cs \<longrightarrow> cpu_req (tasks s (cs ! k)) + cores_used s' > m)"
proof (induction cs arbitrary: s)
  case Nil
  then show ?case by simp
next
  case (Cons c cs)
  show ?case
  proof (cases "jobmanager s")
    case None
    then have "s' = s \<and> r \<noteq> None" using Cons.prems by auto
    then show ?thesis by (intro exI [of _ 0]) auto
  next
    case (Some jm)
    show ?thesis
    proof (cases "cpu_req (tasks s c) + cores_used s > m")
      case True
      then have "s' = s \<and> r = None" using Cons.prems Some by auto
      then show ?thesis using True by (intro exI [of _ 0]) simp
    next
      case False
      obtain r1 s1 where rp: "render_paths c s = (r1, s1)" by (cases "render_paths c s")
      have run1: "running s1 = running s"
        using render_paths_frame [of running c s] rp by simp
      have cpu1: "\<And>u. cpu_req (tasks s1 u) = cpu_req (tasks s u)"
        using render_paths_cpu [of c s] rp by simp
      have jm1: "jobmanager s1 = Some jm"
        using render_paths_frame [of jobmanager c s] rp Some by simp
      have ex1: "ex s1 = ex s" using render_paths_frame [of ex c s] rp by simp
      show ?thesis
      proof (cases r1)
        case (Some e)
        then have "s' = s1" using Cons.prems \<open>jobmanager s = Some jm\<close> False rp by auto
        then show ?thesis using run1 cpu1 Some Cons.prems \<open>jobmanager s = Some jm\<close> False rp
          by (intro exI [of _ 0]) auto
      next
        case None
        obtain r2 s2 where sb: "submit c s1 = (r2, s2)" by (cases "submit c s1")
        have r2: "r2 = None" and run2: "running s2 = running s @ [c]"
          and cpu2: "\<And>u. cpu_req (tasks s2 u) = cpu_req (tasks s u)"
          using submit_effect [OF jm1, of c] sb run1 cpu1 by simp_all
        have ex2: "max_cpus (ex s2) = Some m"
          using submit_frame [of ex c s1] sb ex1 Cons.prems by simp
        have rest: "sweep cs s2 = (r, s')"
          using Cons.prems \<open>jobmanager s = Some jm\<close> False rp None sb r2 by simp
        have cu2: "cores_used s2 = cores_used s + cpu_req (tasks s c)"
          using cores_used_append [of s2 s "[c]"] run2 cpu2 by simp
        from Cons.IH [OF ex2 rest] obtain k where k: "k \<le> length cs"
          and kr: "running s' = running s2 @ take k cs"
          and kc: "\<forall>u. cpu_req (tasks s' u) = cpu_req (tasks s2 u)"
          and kf: "\<forall>i < k. cores_used s2 + sum_list (map (\<lambda>t. cpu_req (tasks s2 t)) (take (Suc i) cs)) \<le> m"
          and ks: "r = None \<and> k < length cs \<longrightarrow> cpu_req (tasks s2 (cs ! k)) + cores_used s' > m"
          by blast
        have fits: "\<forall>i < Suc k. cores_used s
            + sum_list (map (\<lambda>t. cpu_req (tasks s t)) (take (Suc i) (c # cs))) \<le> m"
        proof (intro allI impI)
          fix i
          assume i: "i < Suc k"
          show "cores_used s + sum_list (map (\<lambda>t. cpu_req (tasks s t)) (take (Suc i) (c # cs))) \<le> m"
          proof (cases i)
            case 0
            then show ?thesis using False by simp
          next
            case (Suc j)
            then have "j < k" using i by simp
            then have "cores_used s2 + sum_list (map (\<lambda>t. cpu_req (tasks s2 t)) (take (Suc j) cs)) \<le> m"
              using kf by blast
            then show ?thesis using Suc cu2 cpu2 by (simp add: add.assoc)
          qed
        qed
        show ?thesis
          using k kr kc ks fits run2 cpu2
          by (intro exI [of _ "Suc k"]) auto
      qed
    qed
  qed
qed

lemma sweep_keeps_budget:
  assumes "max_cpus (ex s) = Some m" and "sweep cs s = (r, s')" and "cores_used s \<le> m"
  shows "cores_used s' \<le> m"
proof -
  from sweep_admits [OF assms(1,2)] obtain k where k: "k \<le> length cs"
    and kr: "running s' = running s @ take k cs"
    and kc: "\<forall>u. cpu_req (tasks s' u) = cpu_req (tasks s u)"
    and kf: "\<forall>i < k. cores_used s + sum_list (map (\<lambda>t. cpu_req (tasks s t)) (take (Suc i) cs)) \<le> m"
    by blast
  have cu: "cores_used s' = cores_used s + sum_list (map (\<lambda>t. cpu_req (tasks s t)) (take k cs))"
    using cores_used_append [of s' s "take k cs"] kr kc by simp
  show ?thesis
  proof (cases k)
    case 0
    then show ?thesis using cu assms(3) by simp
  next
    case (Suc j)
    then have "cores_used s + sum_list (map (\<lambda>t. cpu_req (tasks s t)) (take (Suc j) cs)) \<le> m"
      using kf by simp
    then show ?thesis using cu Suc by simp
  qed
qed

lemma sum_list_filter_le:
  "(\<And>x. (0::int) \<le> f x) \<Longrightarrow> sum_list (map f (filter P xs)) \<le> sum_list (map f xs)"
  by (induction xs) (auto simp: add_increasing)

lemma get_finished_tasks_running:
  "get_finished_tasks b jm d s = Some (ts, s1) \<Longrightarrow> jobmanager s = Some jm \<Longrightarrow>
   (\<exists>P. running s1 = filter P (running s)) \<and> (\<forall>u. cpu_req (tasks s1 u) = cpu_req (tasks s u))"
proof (induction d)
  case Nil
  then have "s1 = s" by (simp split: if_splits)
  then show ?case by (auto intro: exI [of _ "\<lambda>x. True"])
next
  case (Cons a d)
  show ?case
  proof (cases "b \<and> reported (running_tasks jm) a = []")
    case True
    then show ?thesis using Cons by simp
  next
    case False
    then have "s1 = (deliver a jm s)\<lparr>drm := d\<rparr>" using Cons.prems by auto
    then show ?thesis using Cons.prems(2) by (auto simp: deliver_def running_def)
  qed
qed

lemma process_task_cpu:
  "cpu_req (tasks (snd (process_task remove_node t s)) u) = cpu_req (tasks s u)"
  by (simp add: process_task_def remove_node_def set_task_status_def Let_def)

lemma for_finished_cpu:
  "cpu_req (tasks (snd (for_finished remove_node ts s)) u) = cpu_req (tasks s u)"
proof (induction ts arbitrary: s)
  case Nil
  show ?case by simp
next
  case (Cons t ts)
  obtain r1 s1 where a: "process_task remove_node t s = (r1, s1)"
    by (cases "process_task remove_node t s")
  have "cpu_req (tasks s1 u) = cpu_req (tasks s u)" using process_task_cpu [of t s u] a by simp
  then show ?case using a Cons.IH [of s1] by (simp split: option.splits)
qed

lemma process_finished_tasks_running:
  assumes "process_finished_tasks b remove_node s = Some (r, s')"
  shows "(\<exists>P. running s' = filter P (running s)) \<and> (\<forall>u. cpu_req (tasks s' u) = cpu_req (tasks s u))"
proof (cases "jobmanager s")
  case None
  then have "s' = s" using assms by (simp add: process_finished_tasks_def)
  then show ?thesis by (auto intro: exI [of _ "\<lambda>x. True"])
next
  case (Some jm)
  then obtain ts s1 where g: "get_finished_tasks b jm (drm s) s = Some (ts, s1)"
    and f: "for_finished remove_node ts s1 = (r, s')"
    using assms by (auto simp: process_finished_tasks_def split: option.splits)
  have "running s' = running s1" using for_finished_frame [of running ts s1] f by simp
  moreover have "\<And>u. cpu_req (tasks s' u) = cpu_req (tasks s1 u)"
    using for_finished_cpu [of ts s1] f by simp
  ultimately show ?thesis using get_finished_tasks_running [OF g Some] by simp
qed

lemma loop_keeps_budget:
  assumes "loop_reach s0 q" and "max_cpus (ex s0) = Some m" and "cores_used s0 \<le> m"
    and nonneg: "\<And>u. 0 \<le> cpu_req (tasks s0 u)"
  shows "cores_used q \<le> m \<and> max_cpus (ex q) = Some m
    \<and> (\<forall>u. cpu_req (tasks q u) = cpu_req (tasks s0 u))"
  using assms(1)
proof (induction rule: loop_reach.induct)
  case entry
  show ?case using assms by simp
next
  case (swept s r s')
  then have sw: "sweep (sorted_ready_tasks s) s = (r, s')" and m: "max_cpus (ex s) = Some m"
    and cu: "cores_used s \<le> m"
    by (simp_all add: run_ready_tasks_def)
  have "cores_used s' \<le> m" using sweep_keeps_budget [OF m sw cu] .
  moreover have "ex s' = ex s" using sweep_frame [of ex "sorted_ready_tasks s" s] sw by simp
  moreover have "\<forall>u. cpu_req (tasks s' u) = cpu_req (tasks s u)"
    using sweep_admits [OF m sw] by blast
  ultimately show ?case using swept.IH by simp
next
  case (drained s r s')
  from process_finished_tasks_running [OF drained.hyps(2)] obtain P
    where P: "running s' = filter P (running s)"
      and c: "\<forall>u. cpu_req (tasks s' u) = cpu_req (tasks s u)"
    by blast
  have "cores_used s' = sum_list (map (\<lambda>t. cpu_req (tasks s0 t)) (filter P (running s)))"
    using P c drained.IH by (simp add: cores_used_def)
  also have "\<dots> \<le> sum_list (map (\<lambda>t. cpu_req (tasks s0 t)) (running s))"
    using nonneg by (rule sum_list_filter_le)
  also have "\<dots> = cores_used s" using drained.IH by (simp add: cores_used_def)
  finally have "cores_used s' \<le> m" using drained.IH by simp
  moreover have "ex s' = ex s"
    using process_finished_tasks_frame [of ex True s r s'] drained.hyps(2) by simp
  ultimately show ?case using drained.IH c by simp
qed

lemma run_loop_reach: "run_loop s = Some (r, s') \<Longrightarrow> loop_reach s s'"
proof (induction s rule: run_loop.induct)
  case (1 s)
  show ?case
  proof (cases "length (nodes (task_queue s)) > 0")
    case False
    then have "s' = s" using "1.prems" by (simp add: run_loop.simps)
    then show ?thesis by (simp add: loop_reach.entry)
  next
    case True
    obtain r1 s1 where a: "run_ready_tasks s = (r1, s1)" by (cases "run_ready_tasks s")
    have l1: "loop_reach s s1" using loop_reach.swept [OF loop_reach.entry a] .
    show ?thesis
    proof (cases r1)
      case (Some e)
      then have "s' = s1" using "1.prems" True a by (simp add: run_loop.simps)
      then show ?thesis using l1 by simp
    next
      case None
      then obtain r2 s2 where b: "process_finished_tasks True remove_node s1 = Some (r2, s2)"
        using "1.prems" True a by (auto simp: run_loop.simps split: option.splits)
      have l2: "loop_reach s s2" using loop_reach.drained [OF l1 b] .
      show ?thesis
      proof (cases r2)
        case (Some e)
        then have "s' = s2" using "1.prems" True a None b by (simp add: run_loop.simps)
        then show ?thesis using l2 by simp
      next
        case n2: None
        have "run_loop s2 = Some (r, s')"
          using "1.prems" True a None b n2 by (simp add: run_loop.simps)
        then have "loop_reach s2 s'"
          using "1.IH" [OF True a [symmetric] None b refl n2] by simp
        then show ?thesis using l2
          by (induction rule: loop_reach.induct) (auto intro: loop_reach.intros)
      qed
    qed
  qed
qed

text \<open>
  Claim C2 as stated fails for a negative budget. With \<open>max_cpus = -1\<close> the sweep admits
  nothing, so after it nothing is in flight and the sum of \<open>cpu_req\<close> over the running
  tasks is 0, which is not at or below \<open>max_cpus\<close>. \<open>-c -1\<close> on the command line gives
  this value.
\<close>

theorem negative_budget_below_empty_sum:
  "max_cpus (ex (scheduling (Some (- 1)) (\<lambda>t. new_task 1 False) \<lparr>nodes = [1], edges = []\<rparr> []))
     = Some (- 1)
   \<and> loop_reach (scheduling (Some (- 1)) (\<lambda>t. new_task 1 False) \<lparr>nodes = [1], edges = []\<rparr> [])
       (snd (run_ready_tasks
          (scheduling (Some (- 1)) (\<lambda>t. new_task 1 False) \<lparr>nodes = [1], edges = []\<rparr> [])))
   \<and> running (snd (run_ready_tasks
          (scheduling (Some (- 1)) (\<lambda>t. new_task 1 False) \<lparr>nodes = [1], edges = []\<rparr> []))) = []
   \<and> cores_used (snd (run_ready_tasks
          (scheduling (Some (- 1)) (\<lambda>t. new_task 1 False) \<lparr>nodes = [1], edges = []\<rparr> []))) = 0
   \<and> \<not> cores_used (snd (run_ready_tasks
          (scheduling (Some (- 1)) (\<lambda>t. new_task 1 False) \<lparr>nodes = [1], edges = []\<rparr> [])))
        \<le> - 1"
proof -
  let ?s = "scheduling (Some (- 1)) (\<lambda>t. new_task 1 False) \<lparr>nodes = [1], edges = []\<rparr> []"
  have "loop_reach ?s (snd (run_ready_tasks ?s))"
    by (rule loop_reach.swept [OF loop_reach.entry, of _ "fst (run_ready_tasks ?s)"]) simp
  moreover have "max_cpus (ex ?s) = Some (- 1) \<and> running (snd (run_ready_tasks ?s)) = []
      \<and> cores_used (snd (run_ready_tasks ?s)) = 0"
    by code_simp
  ultimately show ?thesis by simp
qed

text \<open>
  Claim C2, amended: the bound over the loop is claimed for a budget that is not
  negative. With \<open>max_cpus = m\<close>, a sweep takes the ready tasks in ascending order of
  \<open>cpu_req\<close>. The tasks it submits are the first \<open>k\<close> candidates: each of them was
  submitted with its \<open>cpu_req\<close> plus the sum over the tasks in flight at that moment at
  most \<open>m\<close>, and when the sweep ends normally before the last candidate, candidate \<open>k\<close>
  would exceed \<open>m\<close>; no later candidate is submitted. So a sweep that starts within the
  budget ends within it. In the scheduler loop, entered with nothing in flight, with
  \<open>m\<close> not negative and no \<open>cpu_req\<close> negative (the data model has it positive), the sum
  of \<open>cpu_req\<close> over the running tasks is at most \<open>m\<close> in every state the loop passes
  through.
\<close>

theorem admission_within_budget:
  "(max_cpus (ex s) = Some m \<and> run_ready_tasks s = (r, s') \<longrightarrow>
      sorted (map (\<lambda>t. cpu_req (tasks s t)) (sorted_ready_tasks s))
      \<and> set (sorted_ready_tasks s) = set (ready_tasks s)
      \<and> length (sorted_ready_tasks s) = length (ready_tasks s)
      \<and> (\<exists>k \<le> length (sorted_ready_tasks s).
            running s' = running s @ take k (sorted_ready_tasks s)
            \<and> (\<forall>i < k. cpu_req (tasks s (sorted_ready_tasks s ! i))
                   + (cores_used s
                      + sum_list (map (\<lambda>t. cpu_req (tasks s t)) (take i (sorted_ready_tasks s))))
                 \<le> m)
            \<and> (r = None \<and> k < length (sorted_ready_tasks s) \<longrightarrow>
                 cpu_req (tasks s (sorted_ready_tasks s ! k)) + cores_used s' > m))
      \<and> (cores_used s \<le> m \<longrightarrow> cores_used s' \<le> m))
   \<and> (loop_reach s0 q \<and> running s0 = [] \<and> max_cpus (ex s0) = Some m0 \<and> 0 \<le> m0
        \<and> (\<forall>u. 0 \<le> cpu_req (tasks s0 u))
      \<longrightarrow> cores_used q \<le> m0)"
proof -
  have sweep_part: "sorted (map (\<lambda>t. cpu_req (tasks s t)) (sorted_ready_tasks s))
      \<and> set (sorted_ready_tasks s) = set (ready_tasks s)
      \<and> length (sorted_ready_tasks s) = length (ready_tasks s)
      \<and> (\<exists>k \<le> length (sorted_ready_tasks s).
            running s' = running s @ take k (sorted_ready_tasks s)
            \<and> (\<forall>i < k. cpu_req (tasks s (sorted_ready_tasks s ! i))
                   + (cores_used s
                      + sum_list (map (\<lambda>t. cpu_req (tasks s t)) (take i (sorted_ready_tasks s))))
                 \<le> m)
            \<and> (r = None \<and> k < length (sorted_ready_tasks s) \<longrightarrow>
                 cpu_req (tasks s (sorted_ready_tasks s ! k)) + cores_used s' > m))
      \<and> (cores_used s \<le> m \<longrightarrow> cores_used s' \<le> m)"
    if m: "max_cpus (ex s) = Some m" and rr: "run_ready_tasks s = (r, s')"
  proof -
    let ?cs = "sorted_ready_tasks s"
    have sw: "sweep ?cs s = (r, s')" using rr by (simp add: run_ready_tasks_def)
    from sweep_admits [OF m sw] obtain k where k: "k \<le> length ?cs"
      and kr: "running s' = running s @ take k ?cs"
      and kf: "\<forall>i < k. cores_used s + sum_list (map (\<lambda>t. cpu_req (tasks s t)) (take (Suc i) ?cs)) \<le> m"
      and ks: "r = None \<and> k < length ?cs \<longrightarrow> cpu_req (tasks s (?cs ! k)) + cores_used s' > m"
      by blast
    have fits: "\<forall>i < k. cpu_req (tasks s (?cs ! i))
        + (cores_used s + sum_list (map (\<lambda>t. cpu_req (tasks s t)) (take i ?cs))) \<le> m"
    proof (intro allI impI)
      fix i
      assume i: "i < k"
      then have "i < length ?cs" using k by simp
      then have tk: "take (Suc i) ?cs = take i ?cs @ [?cs ! i]" by (rule take_Suc_conv_app_nth)
      have "sum_list (map (\<lambda>t. cpu_req (tasks s t)) (take (Suc i) ?cs))
          = sum_list (map (\<lambda>t. cpu_req (tasks s t)) (take i ?cs)) + cpu_req (tasks s (?cs ! i))"
        by (subst tk) simp
      moreover have "cores_used s
          + sum_list (map (\<lambda>t. cpu_req (tasks s t)) (take (Suc i) ?cs)) \<le> m"
        using kf i by blast
      ultimately show "cpu_req (tasks s (?cs ! i))
          + (cores_used s + sum_list (map (\<lambda>t. cpu_req (tasks s t)) (take i ?cs))) \<le> m"
        by linarith
    qed
    have "sorted (map (\<lambda>t. cpu_req (tasks s t)) ?cs) \<and> set ?cs = set (ready_tasks s)
        \<and> length ?cs = length (ready_tasks s)"
      by (simp add: sorted_ready_tasks_def)
    moreover have "cores_used s \<le> m \<longrightarrow> cores_used s' \<le> m"
      using sweep_keeps_budget [OF m sw] by blast
    ultimately show ?thesis using k kr fits ks by blast
  qed
  have loop_part: "cores_used q \<le> m0"
    if l: "loop_reach s0 q" and e: "running s0 = []" and m: "max_cpus (ex s0) = Some m0"
      and p: "0 \<le> m0" and n: "\<forall>u. 0 \<le> cpu_req (tasks s0 u)"
  proof -
    have "cores_used s0 \<le> m0" using e p by (simp add: cores_used_def)
    then show ?thesis using loop_keeps_budget [OF l m] n by blast
  qed
  show ?thesis using sweep_part loop_part by blast
qed

text \<open>
  In the diamond the sweep submits task 2 and stops at task 3, which would take the sum
  to 4.
\<close>

theorem admission_within_budget_witness:
  "sorted_ready_tasks diamond = [2, 3]
   \<and> run_ready_tasks diamond = (None, snd (run_ready_tasks diamond))
   \<and> running (snd (run_ready_tasks diamond)) = [2]
   \<and> cpu_req (tasks diamond 3) + cores_used (snd (run_ready_tasks diamond)) > 3
   \<and> cores_used (snd (run_ready_tasks diamond)) \<le> 3
   \<and> loop_reach diamond (snd (run_ready_tasks diamond))"
proof -
  let ?s' = "snd (run_ready_tasks diamond)"
  have c: "sorted_ready_tasks diamond = [2, 3]" by code_simp
  have r: "fst (run_ready_tasks diamond) = None \<and> running ?s' = [2]" by code_simp
  then have rr: "run_ready_tasks diamond = (None, ?s')" by (metis prod.collapse)
  have l: "loop_reach diamond ?s'"
    using loop_reach.swept [OF loop_reach.entry rr] .
  have h: "max_cpus (ex diamond) = Some 3 \<and> running diamond = []
      \<and> (\<forall>u. 0 \<le> cpu_req (tasks diamond u))"
    by (simp add: diamond_def scheduling_def new_execution_def new_task_def running_def)
  have u: "cores_used diamond = 0 \<and> cpu_req (tasks diamond 3) = 2"
    by (simp add: diamond_def scheduling_def new_task_def cores_used_def running_def)
  from admission_within_budget [where s = diamond and m = 3 and r = None and s' = ?s'
      and ?s0.0 = diamond and q = ?s' and ?m0.0 = 3] rr h l
  have b: "cores_used ?s' \<le> 3" by simp
  have "cores_used ?s' = 2"
    using r u cores_used_append [of ?s' diamond "[2]"]
      sweep_admits [of diamond 3 "sorted_ready_tasks diamond" None ?s'] rr h
    by (auto simp: run_ready_tasks_def diamond_def scheduling_def new_task_def)
  then show ?thesis using c r rr l b u by simp
qed

text \<open>
  Claim C6 at its failing input: \<open>max_cpus = 0\<close>, one ready task with \<open>cpu_req = 1\<close>,
  nothing in flight. The sweep submits nothing (the task stays \<open>no_attempt\<close> in the queue),
  whereas with \<open>max_cpus = None\<close> the same task is submitted; the whole run with
  \<open>max_cpus = 0\<close> never returns. The help text of \<open>--max_cpus\<close> in \<open>util/args.py\<close>
  says that 0 means unlimited.
\<close>

theorem max_cpus_zero_admits_nothing:
  "ready_tasks (scheduling (Some 0) (\<lambda>t. new_task 1 False) \<lparr>nodes = [1], edges = []\<rparr> []) = [1]
   \<and> observe [1] (Some (run_ready_tasks
        (scheduling (Some 0) (\<lambda>t. new_task 1 False) \<lparr>nodes = [1], edges = []\<rparr> [])))
     = Some (None, ES_running, False, [TS_no_attempt], [1], [])
   \<and> observe [1] (Some (run_ready_tasks
        (scheduling None (\<lambda>t. new_task 1 False) \<lparr>nodes = [1], edges = []\<rparr> [])))
     = Some (None, ES_running, False, [TS_submitted], [1], [1])
   \<and> run \<lparr>nodes = [1], edges = []\<rparr> out_dir log_dir_of command_of False
        (started (Some 0) (\<lambda>t. new_task 1 False) [exit_with 1 0]) = None"
  by code_simp

section \<open>Resuming an execution\<close>

text \<open>
  Claim C8 as stated fails where the caller gives no \<open>output_dir\<close>: \<open>start\<close> asserts first
  that \<open>output_dir\<close> is not \<open>None\<close>, so the stored value is never used. The execution \<open>wf\<close>
  exists, \<open>restart\<close> is false, and the call ends with the assertion error, leaving the
  store as it was.
\<close>

theorem start_without_output_dir_fails:
  "map name (executions resumable) = [''wf'']
   \<and> start resumable ''wf'' None False True None True ''run.py -n wf''
     = (Inl (AssertionError ''output_dir cannot be None''), resumable)"
  by (simp add: start_def resumable_def new_execution_def)

lemma filter_not_in_filter:
  "filter (\<lambda>r. r \<notin> set (filter P xs)) xs = filter (\<lambda>r. \<not> P r) xs"
  by (rule filter_cong) auto

text \<open>
  Claim C8, amended. Let an execution \<open>e\<close> of the name exist, \<open>restart\<close> be false and the
  caller give the output directory \<open>d\<close>. If \<open>d\<close> is not the stored directory, \<open>start\<close>
  fails its assertion and no task row is deleted. Otherwise \<open>start\<close> returns the execution
  with its stored directory, and the task rows afterwards are the rows before without the
  tasks of \<open>e\<close> whose \<open>successful\<close> flag is false: every other row is kept, among them
  every task whose flag is true.
\<close>

theorem start_resume_deletes_failed_tasks:
  assumes "find (\<lambda>x. name x = nm) (executions st) = Some e"
  shows "(d \<noteq> output_dir e \<longrightarrow>
            fst (start st nm (Some d) False pc mc answer cmd)
              = Inl (AssertionError ''cannot change the output_dir of an execution being resumed.'')
            \<and> db_tasks (snd (start st nm (Some d) False pc mc answer cmd)) = db_tasks st)
       \<and> (d = output_dir e \<longrightarrow>
            (\<exists>e'. fst (start st nm (Some d) False pc mc answer cmd) = Inr e'
                \<and> output_dir e' = output_dir e \<and> max_cpus e' = mc \<and> name e' = nm)
            \<and> db_tasks (snd (start st nm (Some d) False pc mc answer cmd))
                = filter (\<lambda>r. t_successful (snd r) \<or> stage_id (snd r) \<notin> set (stage_ids e st))
                    (db_tasks st))"
proof -
  have nm: "name e = nm" using assms by (auto dest: find_Some_iff [THEN iffD1])
  let ?st1 = "st\<lparr>dirs := mkdir (output_dir e) (dirs st)\<rparr>"
  have q: "query_first nm st = (Some e, ?st1)" using assms by (simp add: query_first_def)
  have s: "start st nm (Some d) False pc mc answer cmd = start_resume e (Some d) mc cmd ?st1"
    using q by (simp add: start_def)
  have ids: "stage_ids (e\<lparr>max_cpus := mc\<rparr>) ?st1 = stage_ids e st" by (simp add: stage_ids_def)
  have del: "db_tasks (snd (delete_failed_tasks (e\<lparr>max_cpus := mc\<rparr>) cmd ?st1))
      = filter (\<lambda>r. t_successful (snd r) \<or> stage_id (snd r) \<notin> set (stage_ids e st)) (db_tasks st)"
  proof -
    let ?P = "\<lambda>r. stage_id (snd r) \<in> set (stage_ids e st) \<and> \<not> t_successful (snd r)"
    have q: "filter (\<lambda>r. \<not> t_successful (snd r)) (tasksq (e\<lparr>max_cpus := mc\<rparr>) ?st1)
        = filter ?P (db_tasks st)"
      by (simp add: tasksq_def ids conj_commute)
    have "db_tasks (snd (delete_failed_tasks (e\<lparr>max_cpus := mc\<rparr>) cmd ?st1))
        = filter (\<lambda>r. r \<notin> set (filter ?P (db_tasks st))) (db_tasks st)"
      unfolding delete_failed_tasks_def Let_def q by simp
    also have "\<dots> = filter (\<lambda>r. \<not> ?P r) (db_tasks st)" by (rule filter_not_in_filter)
    also have "\<dots> = filter (\<lambda>r. t_successful (snd r) \<or> stage_id (snd r) \<notin> set (stage_ids e st))
        (db_tasks st)"
      by (rule filter_cong) auto
    finally show ?thesis .
  qed
  show ?thesis
    using s del nm by (auto simp: start_resume_def delete_failed_tasks_def Let_def)
qed

text \<open>
  Resuming \<open>wf\<close> with its stored directory deletes task 2 and keeps tasks 1 and 3; with
  another directory the assertion fails.
\<close>

theorem start_resume_deletes_failed_tasks_witness:
  "find (\<lambda>x. name x = ''wf'') (executions resumable)
     = Some ((new_execution None)\<lparr>status := ES_killed, finished_on := Some 5\<rparr>)
   \<and> map fst (db_tasks (snd (start resumable ''wf'' (Some ''/out'') False True (Some 4) True
        ''run.py -n wf''))) = [1, 3]
   \<and> fst (start resumable ''wf'' (Some ''/tmp'') False True (Some 4) True ''run.py -n wf'')
     = Inl (AssertionError ''cannot change the output_dir of an execution being resumed.'')"
proof -
  let ?e = "(new_execution None)\<lparr>status := ES_killed, finished_on := Some 5\<rparr>"
  have f: "find (\<lambda>x. name x = ''wf'') (executions resumable) = Some ?e"
    by (simp add: resumable_def new_execution_def)
  have o: "output_dir ?e = ''/out''" by (simp add: new_execution_def)
  have i: "stage_ids ?e resumable = [10]"
    by (simp add: stage_ids_def resumable_def new_execution_def)
  have k: "map fst (filter (\<lambda>r. t_successful (snd r) \<or> stage_id (snd r) \<notin> set [10])
      (db_tasks resumable)) = [1, 3]"
    by (simp add: resumable_def new_task_def)
  show ?thesis
    using f o i k
      start_resume_deletes_failed_tasks [OF f, of "''/out''" True "Some 4" True "''run.py -n wf''"]
      start_resume_deletes_failed_tasks [OF f, of "''/tmp''" True "Some 4" True "''run.py -n wf''"]
    by simp
qed

section \<open>The lifecycle of an execution\<close>

text \<open>
  Claim C9 as stated fails, in both of its converses. The run of scenario S3 ends \<open>killed\<close>
  with \<open>finished_on\<close> set; when the execution is run again its status returns to \<open>running\<close>
  and \<open>finished_on\<close> still holds the time of the first run: nothing ever clears it. And
  when an execution that has ended \<open>successful\<close> is run again, the assignment of the status
  \<open>running\<close> commits the execution with the flag still true, before the next statement
  resets the flag; a process that stops there leaves that row, and \<open>start\<close> resumes from it
  an execution that is \<open>running\<close> with the flag true and \<open>finished_on\<close> set.
\<close>

theorem status_running_with_flag_and_finished_on:
  "observe_times
     (run \<lparr>nodes = [1, 2], edges = []\<rparr> out_dir log_dir_of command_of False
        (started None ((\<lambda>t. new_task 1 False)(1 := new_task 1 True))
           [exit_with 1 1, exit_with 2 0]))
     = Some (ES_killed, False, Some 7, Some 7)
   \<and> observe_times
     (and_then
        (run \<lparr>nodes = [1, 2], edges = []\<rparr> out_dir log_dir_of command_of False
           (started None ((\<lambda>t. new_task 1 False)(1 := new_task 1 True))
              [exit_with 1 1, exit_with 2 0]))
        (run \<lparr>nodes = [1, 2], edges = []\<rparr> out_dir log_dir_of command_of True))
     = Some (ES_running, False, Some 7, Some 7)
   \<and> observe_times
     (run \<lparr>nodes = [1, 2], edges = [(1, 2)]\<rparr> out_dir log_dir_of command_of False
        (started None (\<lambda>t. new_task 1 False) [exit_with 1 0, exit_with 2 0]))
     = Some (ES_successful, True, Some 7, Some 7)
   \<and> observe_times
     (and_then
        (run \<lparr>nodes = [1, 2], edges = [(1, 2)]\<rparr> out_dir log_dir_of command_of False
           (started None (\<lambda>t. new_task 1 False) [exit_with 1 0, exit_with 2 0]))
        run_stopped_after_status)
     = Some (ES_running, True, Some 7, Some 7)
   \<and> observe_start
     (start
        (stored
           (and_then
              (run \<lparr>nodes = [1, 2], edges = [(1, 2)]\<rparr> out_dir log_dir_of command_of False
                 (started None (\<lambda>t. new_task 1 False) [exit_with 1 0, exit_with 2 0]))
              run_stopped_after_status))
        ''wf'' (Some ''/out'') False True None True ''run.py -n wf'')
     = Inr (ES_running, True, Some 7)"
  by code_simp

text \<open>The assignments at the head of \<open>run\<close>, read from the state after the first of them.\<close>

lemma run_begin_after_status:
  "ex (run_begin s) =
     (ex (run_assign_running s))\<lparr>successful := False,
        started_on := (if started_on (ex (run_assign_running s)) = None then Some (now s)
                       else started_on (ex (run_assign_running s)))\<rparr>"
  by (simp add: run_begin_def run_assign_running_def Let_def)

text \<open>What \<open>start\<close> returns is a stored execution, resumed, or a new one.\<close>

lemma query_first_row:
  "query_first nm st = (Some e, st') \<Longrightarrow> e \<in> set (executions st) \<and> executions st' = executions st"
  by (auto simp: query_first_def find_Some_iff split: option.splits)

lemma query_first_none: "query_first nm st = (None, st') \<Longrightarrow> st' = st"
  by (auto simp: query_first_def split: option.splits)

lemma start_restart_rows:
  assumes "start_restart nm pc a st = (Inr i, st1)"
  shows "set (executions st1) \<subseteq> set (executions st)"
proof (cases "query_first nm st")
  case (Pair o1 st0)
  show ?thesis
  proof (cases o1)
    case None
    then show ?thesis using assms Pair query_first_none [of nm st st0]
      by (simp add: start_restart_def)
  next
    case (Some e)
    then have e: "executions st0 = executions st" using Pair query_first_row by blast
    have "set (executions (snd (delete e True st0))) \<subseteq> set (executions st0)"
      by (auto simp: delete_def Let_def)
    then show ?thesis using assms Pair Some e
      by (auto simp: start_restart_def split: if_splits prod.splits option.splits)
  qed
qed

lemma start_resume_row:
  assumes "fst (start_resume e d m c st) = Inr e'"
  shows "status e' = status e \<and> successful e' = successful e \<and> finished_on e' = finished_on e"
  using assms
  by (auto simp: start_resume_def delete_failed_tasks_def Let_def split: option.splits if_splits)

lemma start_create_row:
  assumes "fst (start_create i nm d m c st) = Inr e'"
  shows "status e' = ES_no_attempt \<and> \<not> successful e' \<and> finished_on e' = None"
  using assms
  by (auto simp: start_create_def Let_def split: option.splits if_splits)

lemma start_row:
  assumes "fst (start st nm d restart pc m a c) = Inr e"
  shows "(\<exists>x\<in>set (executions st).
            status e = status x \<and> successful e = successful x \<and> finished_on e = finished_on x)
         \<or> (status e = ES_no_attempt \<and> \<not> successful e \<and> finished_on e = None)"
proof -
  have dn: "d \<noteq> None" using assms by (cases d) (auto simp: start_def)
  obtain r1 st1 where a: "(if restart then start_restart nm pc a st else (Inr None, st)) = (r1, st1)"
    by (cases "if restart then start_restart nm pc a st else (Inr None, st)")
  obtain i where r1: "r1 = Inr i"
    using assms dn a by (cases r1) (auto simp: start_def)
  have sub: "set (executions st1) \<subseteq> set (executions st)"
    using a r1 start_restart_rows [of nm pc a st i st1] by (auto split: if_splits)
  obtain o2 st2 where q: "query_first nm st1 = (o2, st2)" by (cases "query_first nm st1")
  show ?thesis
  proof (cases o2)
    case None
    then have "fst (start_create i nm (the d) m c st2) = Inr e"
      using assms dn a r1 q by (simp add: start_def)
    then show ?thesis using start_create_row by blast
  next
    case (Some x)
    then have "fst (start_resume x d m c st2) = Inr e"
      using assms dn a r1 q by (simp add: start_def)
    then have "status e = status x \<and> successful e = successful x \<and> finished_on e = finished_on x"
      by (rule start_resume_row)
    moreover have "x \<in> set (executions st)" using q Some query_first_row sub by blast
    ultimately show ?thesis by blast
  qed
qed

lemma loop_reach_ex: "loop_reach s0 s \<Longrightarrow> ex s = ex s0"
proof (induction rule: loop_reach.induct)
  case entry
  show ?case by simp
next
  case (swept s r s')
  then show ?case using run_ready_tasks_frame [of ex s] by simp
next
  case (drained s r s')
  then show ?case using process_finished_tasks_frame [of ex True s r s'] by simp
qed

lemma terminate_consistent:
  assumes "\<not> successful (ex s)"
    and "status (ex s) \<in> {ES_successful, ES_failed, ES_killed} \<longrightarrow> finished_on (ex s) \<noteq> None"
  shows "\<not> successful (ex (terminate s)) \<and> status (ex (terminate s)) = ES_killed
    \<and> finished_on (ex (terminate s)) \<noteq> None"
  using assms
  by (auto simp: terminate_def set_status_def execution_status_changed_def Let_def
      split: option.splits)

lemma run_consistent:
  assumes "run task_g od ld gc dry s = Some (r, s')" and "session (ex s)"
  shows "(successful (ex s') \<longleftrightarrow> status (ex s') = ES_successful)
    \<and> (status (ex s') \<in> {ES_successful, ES_failed, ES_killed} \<longrightarrow> finished_on (ex s') \<noteq> None)"
proof -
  obtain r0 s0 where d: "run_setup task_g od ld gc (run_begin s) = (r0, s0)"
    by (cases "run_setup task_g od ld gc (run_begin s)")
  have e0: "ex s0 = ex (run_begin s)"
    using run_setup_frame [of ex task_g od ld gc "run_begin s"] d by simp
  have b: "status (ex s0) = ES_running \<and> \<not> successful (ex s0)"
    using e0 run_begin_ex [of s] by simp
  have nf: "r0 \<noteq> Some ExecutionFailed"
    using run_setup_not_failed [of task_g od ld gc "run_begin s"] d by simp
  show ?thesis
  proof (cases "r0 \<noteq> None \<or> dry")
    case True
    then have "s' = s0"
      using assms(1) \<open>session (ex s)\<close> d nf
      by (cases r0) (auto simp: run_def run_try_def split: if_splits)
    then show ?thesis using b by simp
  next
    case False
    then have r0: "r0 = None" and nd: "\<not> dry" by simp_all
    obtain r2 s2 where l: "run_loop s0 = Some (r2, s2)"
      using assms(1) \<open>session (ex s)\<close> d r0 nd
      by (cases "run_loop s0") (auto simp: run_def run_try_def)
    have e2: "ex s2 = ex s0" using run_loop_frame [of ex s0 r2 s2] l by simp
    have t: "run_try task_g od ld gc dry s =
        (case r2 of Some e \<Rightarrow> Some (Some e, s2)
         | None \<Rightarrow> Some (None, s2\<lparr>ex := set_status ES_successful (now s2) (ex s2)\<rparr>))"
      using \<open>session (ex s)\<close> d r0 nd l by (simp add: run_try_def split: option.splits)
    show ?thesis
    proof (cases r2)
      case None
      then have "s' = s2\<lparr>ex := set_status ES_successful (now s2) (ex s2)\<rparr>"
        using assms(1) t by (simp add: run_def)
      moreover have "status (ex s2) \<noteq> ES_successful" using e2 b by simp
      ultimately show ?thesis using set_status_successful [of "ex s2" "now s2"] by simp
    next
      case (Some e)
      show ?thesis
      proof (cases "e = ExecutionFailed")
        case True
        then have "s' = terminate s2" using assms(1) t Some by (simp add: run_def)
        moreover have "\<not> successful (ex s2)"
          and "status (ex s2) \<in> {ES_successful, ES_failed, ES_killed} \<longrightarrow> finished_on (ex s2) \<noteq> None"
          using e2 b by simp_all
        ultimately show ?thesis using terminate_consistent [of s2] by simp
      next
        case False
        then have "s' = s2" using assms(1) t Some by (simp add: run_def)
        then show ?thesis using e2 b by simp
      qed
    qed
  qed
qed

lemma run_without_session: "\<not> session (ex s) \<Longrightarrow> run task_g od ld gc dry s = Some (r, s') \<Longrightarrow> s' = s"
  by (auto simp: run_def run_try_def)

lemma run_assign_running_consistent:
  assumes "status (ex s) = ES_successful \<longrightarrow> successful (ex s)"
    and "successful (ex s) \<longrightarrow>
         status (ex s) = ES_successful \<or> status (ex s) = ES_running \<and> finished_on (ex s) \<noteq> None"
    and "status (ex s) \<in> {ES_successful, ES_failed, ES_killed} \<longrightarrow> finished_on (ex s) \<noteq> None"
  shows "status (ex (run_assign_running s)) = ES_running
    \<and> (successful (ex (run_assign_running s)) \<longrightarrow> finished_on (ex (run_assign_running s)) \<noteq> None)"
  using assms
  by (auto simp: run_assign_running_def set_status_def execution_status_changed_def)

text \<open>
  Claim C9, amended. In every state of the lifecycle, the states inside a call of \<open>run\<close>
  and the executions that \<open>start\<close> resumes from a committed row included: when the status
  is \<open>successful\<close> the flag is true; when the flag is true the status is \<open>successful\<close>, or it
  is \<open>running\<close> and \<open>finished_on\<close> is set (a new run of an execution that had succeeded,
  between the assignment of the status and the reset of the flag); and \<open>finished_on\<close> is
  set whenever the status is \<open>successful\<close>, \<open>failed\<close> or \<open>killed\<close>. In the state in which a
  call of \<open>run\<close> on an execution with a session ends, the flag is true if and only if the
  status is \<open>successful\<close>. That \<open>finished_on\<close> is unset when the status is not terminal is
  not claimed: \<open>finished_on\<close> is never cleared.
\<close>

theorem lifecycle_consistent:
  "(lifecycle s \<longrightarrow>
      (status (ex s) = ES_successful \<longrightarrow> successful (ex s))
    \<and> (successful (ex s) \<longrightarrow>
         status (ex s) = ES_successful \<or> status (ex s) = ES_running \<and> finished_on (ex s) \<noteq> None)
    \<and> (status (ex s) \<in> {ES_successful, ES_failed, ES_killed} \<longrightarrow> finished_on (ex s) \<noteq> None))
   \<and> (session (ex q) \<and> run task_g od ld gc dry q = Some (r, q') \<longrightarrow>
        (successful (ex q') \<longleftrightarrow> status (ex q') = ES_successful))"
proof (intro conjI impI)
  assume "session (ex q) \<and> run task_g od ld gc dry q = Some (r, q')"
  then show "successful (ex q') \<longleftrightarrow> status (ex q') = ES_successful"
    using run_consistent [of task_g od ld gc dry q r q'] by blast
next
  let ?I = "\<lambda>s. (status (ex s) = ES_successful \<longrightarrow> successful (ex s))
    \<and> (successful (ex s) \<longrightarrow>
         status (ex s) = ES_successful \<or> status (ex s) = ES_running \<and> finished_on (ex s) \<noteq> None)
    \<and> (status (ex s) \<in> {ES_successful, ES_failed, ES_killed} \<longrightarrow> finished_on (ex s) \<noteq> None)"
  have inv: "?I s" if "lifecycle s" for s
    using that
  proof (induction rule: lifecycle.induct)
    case (created s)
    then show ?case by simp
  next
    case (status_assigned s)
    then show ?case using run_assign_running_consistent [of s] by simp
  next
    case (begun s)
    then show ?case using run_begin_ex [of s] by simp
  next
    case (set_up s task_g od ld gc r s')
    then show ?case using run_setup_frame [of ex task_g od ld gc s] by simp
  next
    case (looped s s')
    then show ?case using loop_reach_ex [of s s'] by simp
  next
    case (ran s task_g od ld gc dry r s')
    show ?case
    proof (cases "session (ex s)")
      case True
      then show ?thesis using run_consistent [of task_g od ld gc dry s r s'] ran.hyps by blast
    next
      case False
      then have "s' = s" using run_without_session ran.hyps by blast
      then show ?thesis using ran.IH by simp
    qed
  next
    case (interrupted s r s')
    show ?case
    proof (cases "successful (ex s)")
      case True
      then have "s' = s" using interrupted.hyps by (simp add: ctrl_c_def)
      then show ?thesis using interrupted.IH by simp
    next
      case False
      then have "s' = terminate s" using interrupted.hyps by (simp add: ctrl_c_def)
      then show ?thesis using terminate_consistent [of s] False interrupted.IH by simp
    qed
  next
    case (started_again s r nm d restart prompt_confirm m answer cmd e s')
    have "executions (stored (Some (r, s))) = [ex s]" by (simp add: stored_def)
    then have "(status e = status (ex s) \<and> successful e = successful (ex s)
          \<and> finished_on e = finished_on (ex s))
        \<or> (status e = ES_no_attempt \<and> \<not> successful e \<and> finished_on e = None)"
      using start_row [OF started_again.hyps(2)] by simp
    then show ?case using started_again.IH started_again.hyps(3) by auto
  qed
  assume "lifecycle s"
  then have i: "?I s" by (rule inv)
  from i show "status (ex s) = ES_successful \<Longrightarrow> successful (ex s)" by simp
  from i show "successful (ex s) \<Longrightarrow>
      status (ex s) = ES_successful \<or> status (ex s) = ES_running \<and> finished_on (ex s) \<noteq> None"
    by simp
  from i show "status (ex s) \<in> {ES_successful, ES_failed, ES_killed} \<Longrightarrow> finished_on (ex s) \<noteq> None"
    by simp
qed

text \<open>
  The run in which task 1 fails softly and task 2 succeeds ends \<open>successful\<close> with the flag
  set. The state after the assignment of the status in a second run is a state of the
  lifecycle: its status is \<open>running\<close>, the flag is true and \<open>finished_on\<close> is set.
\<close>

theorem lifecycle_consistent_witness:
  "\<exists>s'. run \<lparr>nodes = [1, 2], edges = [(1, 2)]\<rparr> out_dir log_dir_of command_of False
          (started None (\<lambda>t. new_task 1 False) [exit_with 1 1, exit_with 2 0]) = Some (None, s')
     \<and> session (ex (started None (\<lambda>t. new_task 1 False) [exit_with 1 1, exit_with 2 0]))
     \<and> successful (ex s') \<and> status (ex s') = ES_successful
     \<and> lifecycle (run_assign_running s')
     \<and> status (ex (run_assign_running s')) = ES_running
     \<and> successful (ex (run_assign_running s'))
     \<and> finished_on (ex (run_assign_running s')) \<noteq> None"
proof -
  let ?s = "started None (\<lambda>t. new_task 1 False) [exit_with 1 1, exit_with 2 0]"
  let ?g = "\<lparr>nodes = [1, 2], edges = [(1, 2)]\<rparr>"
  have c: "lifecycle ?s"
    by (rule lifecycle.created) (simp_all add: started_def new_execution_def)
  have n: "session (ex ?s)" by (simp add: started_def new_execution_def)
  have "map_option (\<lambda>(e, s). (e, status (ex s), session (ex s)))
      (run ?g out_dir log_dir_of command_of False ?s) = Some (None, ES_successful, True)"
    by code_simp
  then obtain s' where r: "run ?g out_dir log_dir_of command_of False ?s = Some (None, s')"
    and st: "status (ex s') = ES_successful" and n': "session (ex s')"
    by auto
  have l: "lifecycle s'" using lifecycle.ran [OF c r] .
  have a: "lifecycle (run_assign_running s')" using lifecycle.status_assigned [OF l n'] .
  have t: "status (ex (run_assign_running s')) = ES_running"
    by (simp add: run_assign_running_def set_status_def execution_status_changed_def)
  have u: "successful (ex (run_assign_running s')) = successful (ex s')"
    using st by (simp add: run_assign_running_def set_status_def execution_status_changed_def)
  show ?thesis
    using r n st a t u
      lifecycle_consistent [where s = "run_assign_running s'" and q = ?s and task_g = ?g
        and od = out_dir and ld = log_dir_of and gc = command_of and dry = False and r = None
        and q' = s']
    by auto
qed

end
